theory Spec2Isabelle
  imports Main "HOL-Library.Word" "HOL-Library.Multiset"
begin

section \<open>The event journal of \<^verbatim>\<open>p2p/simulations/journal.go\<close>\<close>

text \<open>
  A \<^verbatim>\<open>Journal\<close> is a struct with a lock, a subscription and three data fields.
  The lock serialises the public methods, so each method is modelled as one atomic
  transition on the three data fields; the subscription is the channel the background
  loop reads and carries no data of its own. Go's \<^verbatim>\<open>int\<close> is modelled as \<open>int\<close>:
  \<^verbatim>\<open>cursor\<close> and \<^verbatim>\<open>read\<close> are only ever incremented below \<^verbatim>\<open>len(events)\<close>, which
  Go bounds by the largest \<^verbatim>\<open>int\<close>, so no increment of the source can wrap.
  The element type \<open>'e\<close> stands for \<^verbatim>\<open>*event.Event\<close>.
\<close>

datatype panic =
    IndexOutOfRange
  | SliceBoundsOutOfRange
  | PostError string

record 'e Journal =
  counter :: int
  cursor :: int
  events :: "'e list"

text \<open>\<^verbatim>\<open>self := &Journal{}\<close>: every field has its zero value.\<close>

definition NewJournal :: "'e Journal" where
  "NewJournal = \<lparr>counter = 0, cursor = 0, events = []\<rparr>"

text \<open>\<^verbatim>\<open>self.events = append(self.events, evs...)\<close>, and nothing else.\<close>

definition append_evs :: "'e list \<Rightarrow> 'e Journal \<Rightarrow> 'e Journal" where
  "append_evs evs self = self\<lparr>events := events self @ evs\<rparr>"

text \<open>
  \<^verbatim>\<open>Write\<close>, the loop of the background goroutine: receive from the subscription's
  channel, return when the receive reports the channel closed, append the event
  otherwise. The channel is given by what its successive receives yield, \<open>Some ev\<close>
  for an event and \<open>None\<close> for a receive on the closed channel. When the receives
  run out the loop is blocked in the receive and has not returned; the result is then
  \<open>None\<close>.
\<close>

fun Write :: "'e option list \<Rightarrow> 'e Journal \<Rightarrow> 'e Journal option" where
  "Write [] self = None"
| "Write (None # rest) self = Some self"
| "Write (Some ev # rest) self = Write rest (append_evs [ev] self)"

definition NewEntries :: "'e Journal \<Rightarrow> int" where
  "NewEntries self = int (length (events self)) - cursor self"

text \<open>
  \<^verbatim>\<open>reset\<close> first clamps its own argument and then never reads it again. The slice
  expression \<^verbatim>\<open>self.events[self.cursor:]\<close> panics in Go unless
  \<^verbatim>\<open>0 <= cursor <= len(events)\<close>.
\<close>

definition reset :: "int \<Rightarrow> 'e Journal \<Rightarrow> panic + 'e Journal" where
  "reset n self =
     (let n = (if n > counter self then counter self else n)
      in if cursor self < 0 \<or> int (length (events self)) < cursor self
         then Inl SliceBoundsOutOfRange
         else Inr (self\<lparr>events := drop (nat (cursor self)) (events self), cursor := 0\<rparr>))"

definition Reset :: "int \<Rightarrow> 'e Journal \<Rightarrow> panic + 'e Journal" where
  "Reset n self = reset n self"

text \<open>
  The loop of \<^verbatim>\<open>Read\<close>. The predicate is a pure total function. Besides the running
  count and the journal, the model threads a log of the events the predicate has been
  applied to, in call order; the log is not program state, it records the calls so that
  statements about which events are delivered can be made. Indexing
  \<^verbatim>\<open>self.events[self.cursor]\<close> panics on a negative cursor.
\<close>

function Read_loop ::
  "('e \<Rightarrow> bool) \<Rightarrow> int \<Rightarrow> 'e Journal \<Rightarrow> 'e list \<Rightarrow> panic + (int \<times> 'e Journal \<times> 'e list)" where
  "Read_loop f read self calls =
     (if cursor self < int (length (events self)) then
        (if cursor self < 0 then Inl IndexOutOfRange
         else
           (let e = events self ! nat (cursor self) in
            if f e
            then Read_loop f (read + 1) (self\<lparr>cursor := cursor self + 1\<rparr>) (calls @ [e])
            else Inr (read, self, calls @ [e])))
      else Inr (read, self, calls))"
  by pat_completeness auto
termination
  by (relation "measure (\<lambda>(f, read, self, calls). nat (int (length (events self)) - cursor self))")
     auto

declare Read_loop.simps [simp del]

text \<open>
  A Go \<^verbatim>\<open>error\<close> value; \<open>None\<close> is \<^verbatim>\<open>nil\<close>. \<^verbatim>\<open>Read\<close> returns the pair
  \<^verbatim>\<open>(read, err)\<close>; the model returns it together with the journal after the call and
  the call log.
\<close>

type_synonym go_error = "string option"

definition Read ::
  "('e \<Rightarrow> bool) \<Rightarrow> 'e Journal \<Rightarrow> panic + ((int \<times> go_error) \<times> 'e Journal \<times> 'e list)" where
  "Read f self =
     (case Read_loop f 0 self [] of
        Inl p \<Rightarrow> Inl p
      | Inr (read, self1, calls) \<Rightarrow>
          (case reset (cursor self1) self1 of
             Inl p \<Rightarrow> Inl p
           | Inr self2 \<Rightarrow> Inr ((read, None), self2, calls)))"

definition Counter :: "'e Journal \<Rightarrow> int" where
  "Counter self = counter self"

definition Cursor :: "'e Journal \<Rightarrow> int" where
  "Cursor self = cursor self"

text \<open>
  The operations that touch a journal: the internal \<^verbatim>\<open>append\<close> (called by the
  \<^verbatim>\<open>Write\<close> loop, once per received event; the method itself is variadic) and the
  public methods. \<open>step\<close> gives the journal after one operation.
\<close>

datatype 'e op =
    Append "'e list"
  | OpRead "'e \<Rightarrow> bool"
  | OpReset int
  | OpNewEntries
  | OpCounter
  | OpCursor

fun step :: "'e op \<Rightarrow> 'e Journal \<Rightarrow> panic + 'e Journal" where
  "step (Append evs) self = Inr (append_evs evs self)"
| "step (OpRead f) self =
     (case Read f self of Inl p \<Rightarrow> Inl p | Inr (r, self', calls) \<Rightarrow> Inr self')"
| "step (OpReset n) self = Reset n self"
| "step OpNewEntries self = Inr self"
| "step OpCounter self = Inr self"
| "step OpCursor self = Inr self"

fun run :: "'e op list \<Rightarrow> 'e Journal \<Rightarrow> panic + 'e Journal" where
  "run [] self = Inr self"
| "run (x # xs) self = (case step x self of Inl p \<Rightarrow> Inl p | Inr self' \<Rightarrow> run xs self')"

text \<open>The bound on the cursor that the data model states.\<close>

definition cursor_ok :: "'e Journal \<Rightarrow> bool" where
  "cursor_ok self = (0 \<le> cursor self \<and> cursor self \<le> int (length (events self)))"

text \<open>The unread entries: the part of the buffer from the cursor on.\<close>

definition unread :: "'e Journal \<Rightarrow> 'e list" where
  "unread self = drop (nat (cursor self)) (events self)"

section \<open>The random topology driver \<^verbatim>\<open>MockNetwork\<close>\<close>

text \<open>
  A node identity is a fixed-size byte array in the source (\<^verbatim>\<open>caller[:]\<close> slices it);
  the model takes it as a list of bytes. \<^verbatim>\<open>bytes.Compare\<close> of the Go standard library
  compares two byte slices lexicographically, bytes read as unsigned numbers, and returns
  -1, 0 or 1.
\<close>

type_synonym NodeID = "8 word list"

fun bytes_Compare :: "8 word list \<Rightarrow> 8 word list \<Rightarrow> int" where
  "bytes_Compare [] [] = 0"
| "bytes_Compare [] (y # ys) = - 1"
| "bytes_Compare (x # xs) [] = 1"
| "bytes_Compare (x # xs) (y # ys) =
     (if x < y then - 1 else if y < x then 1 else bytes_Compare xs ys)"

text \<open>
  Modelled from the spec: the types \<^verbatim>\<open>SimNode\<close>, \<^verbatim>\<open>SimConn\<close> and \<^verbatim>\<open>Entry\<close> of package
  \<^verbatim>\<open>simulations\<close> are declared in a file that is not among the sources. The spec gives
  an event the attributes \<^verbatim>\<open>Type\<close>, \<^verbatim>\<open>Action\<close> and \<^verbatim>\<open>Object\<close>, the object being a
  node identity or a caller/callee pair; the fields below are the ones \<^verbatim>\<open>MockNetwork\<close>
  writes.
\<close>

record SimNode =
  ID :: NodeID

record SimConn =
  Caller :: NodeID
  Callee :: NodeID

datatype object = NodeObject SimNode | ConnObject SimConn

record Entry =
  Type :: string
  Action :: string
  Object :: object

text \<open>
  Modelled from the spec: \<^verbatim>\<open>event.TypeMux\<close> (package \<^verbatim>\<open>event\<close> is not among the
  sources). The spec gives it \<^verbatim>\<open>Post(event) -> error\<close>. The model keeps the entries
  posted so far, in post order, and a flag for a multiplexer that has been stopped, the
  one case in which \<^verbatim>\<open>Post\<close> returns an error.
\<close>

record TypeMux =
  stopped :: bool
  posted :: "Entry list"

definition Post :: "Entry \<Rightarrow> TypeMux \<Rightarrow> string + TypeMux" where
  "Post e mux =
     (if stopped mux then Inl ''event: mux closed''
      else Inr (mux\<lparr>posted := posted mux @ [e]\<rparr>))"

text \<open>
  Randomness. The driver draws from the global source of \<^verbatim>\<open>math/rand\<close>. The model
  takes the values the source would yield as a list \<open>rs\<close>, consumed from the front:
  the next call \<^verbatim>\<open>rand.Intn(n)\<close> returns the head of the list reduced modulo \<open>n\<close>, so
  every sequence of results the calls can have is given by some list. A run that needs a
  draw when the list is empty stops there with \<open>NeedsDraw\<close>, which carries the state
  the run has reached; the list thus also bounds the length of a run. \<open>reaches\<close> says
  that a run has ended in a given state, finished for the given draws or not. Every call
  site passes a positive \<open>n\<close> (10, 2, or a length that has just been tested to be
  positive), so the panic of \<^verbatim>\<open>rand.Intn\<close> on \<^verbatim>\<open>n <= 0\<close> cannot occur.
\<close>

definition Intn :: "nat \<Rightarrow> nat list \<Rightarrow> (nat \<times> nat list) option" where
  "Intn n rs = (case rs of [] \<Rightarrow> None | r # rs' \<Rightarrow> Some (r mod n, rs'))"

datatype 'a outcome =
    NeedsDraw 'a
  | Panicked panic
  | Returned 'a

definition reaches :: "'a outcome \<Rightarrow> 'a \<Rightarrow> bool" where
  "reaches out x = (out = Returned x \<or> out = NeedsDraw x)"

record Delta =
  On :: int
  Off :: int

definition oneOutOf :: "nat \<Rightarrow> nat list \<Rightarrow> (int \<times> nat list) option" where
  "oneOutOf n rs =
     (case Intn n rs of
        None \<Rightarrow> None
      | Some (t, rs') \<Rightarrow> Some (if t = 0 then 1 else 0, rs'))"

definition deltas :: "int \<Rightarrow> nat list \<Rightarrow> (Delta list \<times> nat list) option" where
  "deltas i rs =
     (if i = 0 then Some ([\<lparr>On = 10, Off = 0\<rparr>, \<lparr>On = 20, Off = 0\<rparr>], rs)
      else
        (case oneOutOf 10 rs of None \<Rightarrow> None | Some (a, rs1) \<Rightarrow>
        (case oneOutOf 10 rs1 of None \<Rightarrow> None | Some (b, rs2) \<Rightarrow>
        (case oneOutOf 2 rs2 of None \<Rightarrow> None | Some (c, rs3) \<Rightarrow>
        (case oneOutOf 2 rs3 of None \<Rightarrow> None | Some (d, rs4) \<Rightarrow>
           Some ([\<lparr>On = a, Off = b\<rparr>, \<lparr>On = c, Off = d\<rparr>], rs4))))))"

text \<open>The three slices \<^verbatim>\<open>MockNetwork\<close> carries from tick to tick.\<close>

record mock_state =
  onNodes :: "SimNode list"
  offNodes :: "NodeID list"
  onConns :: "SimConn list"

text \<open>
  The four inner loops of \<^verbatim>\<open>MockNetwork\<close>, in source order; \<open>i\<close> is the loop counter
  and \<open>n\<close> the bound taken from the deltas. \<^verbatim>\<open>append(s[0:c], s[c+1:]...)\<close> removes the
  element at index \<open>c\<close>. A failed \<^verbatim>\<open>Post\<close> panics with the error's text.
\<close>

function MockNetwork_nodes_on ::
  "int \<Rightarrow> int \<Rightarrow> mock_state \<Rightarrow> TypeMux \<Rightarrow> nat list \<Rightarrow> (mock_state \<times> TypeMux \<times> nat list) outcome" where
  "MockNetwork_nodes_on i n st mux rs =
     (if length (offNodes st) > 0 \<and> i < n then
        (case Intn (length (offNodes st)) rs of
           None \<Rightarrow> NeedsDraw (st, mux, rs)
         | Some (c, rs') \<Rightarrow>
             (let sn = \<lparr>ID = offNodes st ! c\<rparr> in
              case Post \<lparr>Type = ''Node'', Action = ''On'', Object = NodeObject sn\<rparr> mux of
                Inl err \<Rightarrow> Panicked (PostError err)
              | Inr mux' \<Rightarrow>
                  MockNetwork_nodes_on (i + 1) n
                    (st\<lparr>onNodes := onNodes st @ [sn],
                        offNodes := take c (offNodes st) @ drop (c + 1) (offNodes st)\<rparr>)
                    mux' rs'))
      else Returned (st, mux, rs))"
  by pat_completeness auto
termination
  by (relation "measure (\<lambda>(i, n, st, mux, rs). nat (n - i))") auto

function MockNetwork_nodes_off ::
  "int \<Rightarrow> int \<Rightarrow> mock_state \<Rightarrow> TypeMux \<Rightarrow> nat list \<Rightarrow> (mock_state \<times> TypeMux \<times> nat list) outcome" where
  "MockNetwork_nodes_off i n st mux rs =
     (if length (onNodes st) > 0 \<and> i < n then
        (case Intn (length (onNodes st)) rs of
           None \<Rightarrow> NeedsDraw (st, mux, rs)
         | Some (c, rs') \<Rightarrow>
             (let sn = onNodes st ! c in
              case Post \<lparr>Type = ''Node'', Action = ''Off'', Object = NodeObject sn\<rparr> mux of
                Inl err \<Rightarrow> Panicked (PostError err)
              | Inr mux' \<Rightarrow>
                  MockNetwork_nodes_off (i + 1) n
                    (st\<lparr>onNodes := take c (onNodes st) @ drop (c + 1) (onNodes st),
                        offNodes := offNodes st @ [ID sn]\<rparr>)
                    mux' rs'))
      else Returned (st, mux, rs))"
  by pat_completeness auto
termination
  by (relation "measure (\<lambda>(i, n, st, mux, rs). nat (n - i))") auto

text \<open>
  The connection loop draws a caller and a callee. When the caller does not sort strictly
  before the callee, the source decrements \<open>i\<close> and continues, and the loop's own
  increment restores \<open>i\<close>: the iteration is repeated with fresh draws and nothing is
  posted. Nothing bounds the number of repetitions but the draws themselves.
\<close>

function MockNetwork_conns_on ::
  "int \<Rightarrow> int \<Rightarrow> mock_state \<Rightarrow> TypeMux \<Rightarrow> nat list \<Rightarrow> (mock_state \<times> TypeMux \<times> nat list) outcome" where
  "MockNetwork_conns_on i n st mux rs =
     (if length (onNodes st) > 1 \<and> i < n then
        (case Intn (length (onNodes st)) rs of
           None \<Rightarrow> NeedsDraw (st, mux, rs)
         | Some (c1, rs1) \<Rightarrow>
             (case Intn (length (onNodes st)) rs1 of
                None \<Rightarrow> NeedsDraw (st, mux, rs1)
              | Some (c2, rs2) \<Rightarrow>
                  (let caller = ID (onNodes st ! c1);
                       callee = ID (onNodes st ! c2)
                   in if bytes_Compare caller callee \<ge> 0
                      then MockNetwork_conns_on (i - 1 + 1) n st mux rs2
                      else
                        (let sc = \<lparr>Caller = caller, Callee = callee\<rparr> in
                         case Post \<lparr>Type = ''Conn'', Action = ''On'', Object = ConnObject sc\<rparr> mux of
                           Inl err \<Rightarrow> Panicked (PostError err)
                         | Inr mux' \<Rightarrow>
                             MockNetwork_conns_on (i + 1) n (st\<lparr>onConns := onConns st @ [sc]\<rparr>)
                               mux' rs2))))
      else Returned (st, mux, rs))"
  by pat_completeness auto
termination
  by (relation "measure (\<lambda>(i, n, st, mux, rs). length rs)")
     (auto simp: Intn_def split: list.splits)

function MockNetwork_conns_off ::
  "int \<Rightarrow> int \<Rightarrow> mock_state \<Rightarrow> TypeMux \<Rightarrow> nat list \<Rightarrow> (mock_state \<times> TypeMux \<times> nat list) outcome" where
  "MockNetwork_conns_off i n st mux rs =
     (if length (onConns st) > 0 \<and> i < n then
        (case Intn (length (onConns st)) rs of
           None \<Rightarrow> NeedsDraw (st, mux, rs)
         | Some (c, rs') \<Rightarrow>
             (case Post \<lparr>Type = ''Conn'', Action = ''Off'', Object = ConnObject (onConns st ! c)\<rparr> mux of
                Inl err \<Rightarrow> Panicked (PostError err)
              | Inr mux' \<Rightarrow>
                  MockNetwork_conns_off (i + 1) n
                    (st\<lparr>onConns := take c (onConns st) @ drop (c + 1) (onConns st)\<rparr>)
                    mux' rs'))
      else Returned (st, mux, rs))"
  by pat_completeness auto
termination
  by (relation "measure (\<lambda>(i, n, st, mux, rs). nat (n - i))") auto

declare MockNetwork_nodes_on.simps [simp del]
declare MockNetwork_nodes_off.simps [simp del]
declare MockNetwork_conns_on.simps [simp del]
declare MockNetwork_conns_off.simps [simp del]

text \<open>The body of the tick loop for tick number \<open>n\<close>, up to \<^verbatim>\<open>n++\<close>.\<close>

definition MockNetwork_tick ::
  "int \<Rightarrow> mock_state \<Rightarrow> TypeMux \<Rightarrow> nat list \<Rightarrow> (mock_state \<times> TypeMux \<times> nat list) outcome" where
  "MockNetwork_tick n st mux rs =
     (case deltas n rs of
        None \<Rightarrow> NeedsDraw (st, mux, rs)
      | Some (ds, rs0) \<Rightarrow>
     (case MockNetwork_nodes_on 0 (On (ds ! 0)) st mux rs0 of
        NeedsDraw x \<Rightarrow> NeedsDraw x | Panicked p \<Rightarrow> Panicked p
      | Returned (st1, mux1, rs1) \<Rightarrow>
     (case MockNetwork_nodes_off 0 (Off (ds ! 0)) st1 mux1 rs1 of
        NeedsDraw x \<Rightarrow> NeedsDraw x | Panicked p \<Rightarrow> Panicked p
      | Returned (st2, mux2, rs2) \<Rightarrow>
     (case MockNetwork_conns_on 0 (On (ds ! 1)) st2 mux2 rs2 of
        NeedsDraw x \<Rightarrow> NeedsDraw x | Panicked p \<Rightarrow> Panicked p
      | Returned (st3, mux3, rs3) \<Rightarrow>
          MockNetwork_conns_off 0 (Off (ds ! 1)) st3 mux3 rs3))))"

text \<open>
  \<^verbatim>\<open>for _ = range ticker\<close>: one pass of the body per value received; \<open>k\<close> is the number
  of ticks the channel delivers before it is closed. \<open>ids\<close> stands for the result of
  \<^verbatim>\<open>RandomNodeIDs(100)\<close>, a function that is not among the sources.
\<close>

fun MockNetwork_ticks ::
  "nat \<Rightarrow> int \<Rightarrow> mock_state \<Rightarrow> TypeMux \<Rightarrow> nat list \<Rightarrow> (mock_state \<times> TypeMux \<times> nat list) outcome" where
  "MockNetwork_ticks 0 n st mux rs = Returned (st, mux, rs)"
| "MockNetwork_ticks (Suc k) n st mux rs =
     (case MockNetwork_tick n st mux rs of
        NeedsDraw x \<Rightarrow> NeedsDraw x
      | Panicked p \<Rightarrow> Panicked p
      | Returned (st', mux', rs') \<Rightarrow> MockNetwork_ticks k (n + 1) st' mux' rs')"

definition fresh_pool :: "NodeID list \<Rightarrow> mock_state" where
  "fresh_pool ids = \<lparr>onNodes = [], offNodes = ids, onConns = []\<rparr>"

definition MockNetwork ::
  "NodeID list \<Rightarrow> TypeMux \<Rightarrow> nat \<Rightarrow> nat list \<Rightarrow> (mock_state \<times> TypeMux \<times> nat list) outcome" where
  "MockNetwork ids eventer k rs = MockNetwork_ticks k 0 (fresh_pool ids) eventer rs"

text \<open>
  What the statements about the driver say of a posted entry: that it is a
  \<^verbatim>\<open>Node\<close>/\<^verbatim>\<open>On\<close> entry carrying a node, or a \<^verbatim>\<open>Conn\<close>/\<^verbatim>\<open>On\<close> entry carrying a
  connection whose caller sorts strictly before its callee under \<^verbatim>\<open>bytes.Compare\<close>.
\<close>

definition is_node_on :: "Entry \<Rightarrow> bool" where
  "is_node_on e =
     (Type e = ''Node'' \<and> Action e = ''On''
      \<and> (case Object e of NodeObject sn \<Rightarrow> True | ConnObject sc \<Rightarrow> False))"

definition is_ordered_conn_on :: "Entry \<Rightarrow> bool" where
  "is_ordered_conn_on e =
     (Type e = ''Conn'' \<and> Action e = ''On''
      \<and> (case Object e of
            NodeObject sn \<Rightarrow> False
          | ConnObject sc \<Rightarrow> bytes_Compare (Caller sc) (Callee sc) < 0))"

text \<open>
  Reading a log of posted entries as moves between two pools of node identities, the
  on-set and the off-pool (kept as multisets, since identities are compared by value):
  a \<^verbatim>\<open>Node\<close>/\<^verbatim>\<open>On\<close> entry takes its node out of the off-pool and puts it into the on-set,
  a \<^verbatim>\<open>Node\<close>/\<^verbatim>\<open>Off\<close> entry does the converse, and any other entry moves nothing. The
  reading fails (\<open>None\<close>) at an entry whose node is not in the pool it is to be taken
  from.
\<close>

fun replay_nodes ::
  "Entry list \<Rightarrow> NodeID multiset \<times> NodeID multiset \<Rightarrow> (NodeID multiset \<times> NodeID multiset) option" where
  "replay_nodes [] pools = Some pools"
| "replay_nodes (e # es) (on, off) =
     (case Object e of
        ConnObject sc \<Rightarrow> replay_nodes es (on, off)
      | NodeObject sn \<Rightarrow>
          if Type e = ''Node'' \<and> Action e = ''On'' then
            (if ID sn \<in># off
             then replay_nodes es (add_mset (ID sn) on, off - {#ID sn#})
             else None)
          else if Type e = ''Node'' \<and> Action e = ''Off'' then
            (if ID sn \<in># on
             then replay_nodes es (on - {#ID sn#}, add_mset (ID sn) off)
             else None)
          else replay_nodes es (on, off))"

definition pools :: "mock_state \<Rightarrow> NodeID multiset \<times> NodeID multiset" where
  "pools st = (mset (map ID (onNodes st)), mset (offNodes st))"

text \<open>
  From one state of a run to a later one: the log has grown by some entries, the
  multiplexer is running or stopped as before, and reading the new entries against the
  earlier pools succeeds and gives the later pools.
\<close>

definition advances :: "mock_state \<Rightarrow> TypeMux \<Rightarrow> mock_state \<Rightarrow> TypeMux \<Rightarrow> bool" where
  "advances st mux st' mux' =
     (\<exists>ps. posted mux' = posted mux @ ps
        \<and> stopped mux' = stopped mux
        \<and> replay_nodes ps (pools st) = Some (pools st'))"

text \<open>
  A concrete run: a hundred distinct identities, a running multiplexer with an empty log,
  and a list of draws that carries the driver through tick 0 (ten node draws, two pairs
  that are drawn again because the caller does not sort before the callee, twenty ordered
  pairs) and tick 1 (four draws for the deltas, which come out as one node on and one node
  off, and the draws choosing those two nodes). The short list ends in the middle of the
  connection loop of tick 0.
\<close>

definition example_ids :: "NodeID list" where
  "example_ids = map (\<lambda>i. [of_nat i]) [0..<100]"

definition example_eventer :: TypeMux where
  "example_eventer = \<lparr>stopped = False, posted = []\<rparr>"

definition example_draws_tick0 :: "nat list" where
  "example_draws_tick0 =
     [42, 7, 99, 0, 13, 250, 5, 64, 31, 8] @ [3, 3, 5, 2] @ concat (replicate 20 [2, 5])"

definition example_draws_short :: "nat list" where
  "example_draws_short = take 30 example_draws_tick0"

definition example_draws :: "nat list" where
  "example_draws = example_draws_tick0 @ [0, 10, 1, 3] @ [17] @ [4]"

section \<open>Properties of the journal\<close>

lemma Read_loop_spec:
  assumes "cursor_ok self"
  shows "Read_loop f read self calls =
     Inr (read + int (length (takeWhile f (unread self))),
          self\<lparr>cursor := cursor self + int (length (takeWhile f (unread self)))\<rparr>,
          calls @ take (Suc (length (takeWhile f (unread self)))) (unread self))"
  using assms
proof (induction f read self calls rule: Read_loop.induct)
  case (1 f read self calls)
  show ?case
  proof (cases "cursor self < int (length (events self))")
    case False
    with "1.prems" have "unread self = []"
      by (simp add: unread_def cursor_ok_def)
    with False show ?thesis
      by (subst Read_loop.simps) simp
  next
    case True
    from "1.prems" have nonneg: "0 \<le> cursor self"
      by (simp add: cursor_ok_def)
    with True have lt: "nat (cursor self) < length (events self)"
      by linarith
    define e where "e = events self ! nat (cursor self)"
    define self' where "self' = self\<lparr>cursor := cursor self + 1\<rparr>"
    have nat_suc: "nat (cursor self + 1) = Suc (nat (cursor self))"
      using nonneg by linarith
    have un: "unread self = e # unread self'"
      using lt by (simp add: unread_def self'_def e_def nat_suc Cons_nth_drop_Suc)
    show ?thesis
    proof (cases "f e")
      case False
      with True nonneg un show ?thesis
        by (subst Read_loop.simps) (simp add: e_def [symmetric])
    next
      case fe: True
      have ok': "cursor_ok self'"
        using True nonneg by (simp add: cursor_ok_def self'_def)
      have IH: "Read_loop f (read + 1) self' (calls @ [e]) =
          Inr (read + 1 + int (length (takeWhile f (unread self'))),
               self'\<lparr>cursor := cursor self' + int (length (takeWhile f (unread self')))\<rparr>,
               (calls @ [e]) @ take (Suc (length (takeWhile f (unread self')))) (unread self'))"
        using "1.IH" [of e] True nonneg fe ok'
        by (simp add: e_def self'_def)
      have "Read_loop f read self calls = Read_loop f (read + 1) self' (calls @ [e])"
        using True nonneg fe
        by (subst Read_loop.simps) (simp add: e_def [symmetric] self'_def)
      with IH un fe show ?thesis
        by (simp add: self'_def)
    qed
  qed
qed

lemma Read_spec:
  assumes "cursor_ok self"
  shows "Read f self =
     Inr ((int (length (takeWhile f (unread self))), None),
          self\<lparr>events := dropWhile f (unread self), cursor := 0\<rparr>,
          take (Suc (length (takeWhile f (unread self)))) (unread self))"
proof -
  let ?k = "length (takeWhile f (unread self))"
  have k: "?k \<le> length (unread self)"
    by (rule length_takeWhile_le)
  have len: "length (unread self) = length (events self) - nat (cursor self)"
    by (simp add: unread_def)
  from assms have c0: "0 \<le> cursor self" and c1: "cursor self \<le> int (length (events self))"
    by (simp_all add: cursor_ok_def)
  then have c: "0 \<le> cursor self" "nat (cursor self) \<le> length (events self)"
    by linarith+
  have nat_eq: "nat (cursor self + int ?k) = nat (cursor self) + ?k"
    using c by linarith
  have "drop (nat (cursor self) + ?k) (events self) = drop ?k (unread self)"
    by (simp add: unread_def add.commute)
  also have "\<dots> = dropWhile f (unread self)"
    by (simp add: dropWhile_eq_drop)
  finally have d: "drop (nat (cursor self) + ?k) (events self) = dropWhile f (unread self)" .
  have bound: "\<not> int (length (events self)) < cursor self + int ?k"
    using k len c by linarith
  show ?thesis
    using c bound d
    by (simp add: Read_def Read_loop_spec [OF assms] reset_def nat_eq Let_def)
qed


lemma take_length_take: "take n xs = take (length (take n xs)) xs"
  by (cases "n \<le> length xs") (simp_all add: min_def)

lemma reset_Inr_iff: "(\<exists>self'. reset n self = Inr self') \<longleftrightarrow> cursor_ok self"
  by (auto simp: reset_def cursor_ok_def)

lemma reset_spec: "cursor_ok self \<Longrightarrow> reset n self = Inr (self\<lparr>events := unread self, cursor := 0\<rparr>)"
  by (auto simp: reset_def cursor_ok_def unread_def)

lemma reset_panics: "\<not> cursor_ok self \<Longrightarrow> reset n self = Inl SliceBoundsOutOfRange"
  by (auto simp: reset_def cursor_ok_def)

lemma Read_panics:
  assumes "\<not> cursor_ok self"
  shows "\<exists>p. Read f self = Inl p"
proof (cases "cursor self < 0")
  case True
  then have "Read_loop f 0 self [] = Inl IndexOutOfRange"
    by (subst Read_loop.simps) simp
  then show ?thesis
    by (simp add: Read_def)
next
  case False
  with assms have gt: "int (length (events self)) < cursor self"
    by (simp add: cursor_ok_def)
  then have "Read_loop f 0 self [] = Inr (0, self, [])"
    by (subst Read_loop.simps) simp
  with assms show ?thesis
    by (simp add: Read_def reset_panics)
qed

lemma Read_Inr_cursor_ok: "Read f self = Inr x \<Longrightarrow> cursor_ok self"
  using Read_panics [of self f] by (cases "cursor_ok self") auto

lemma step_Inr_Read: "step (OpRead f) self = Inr self' \<Longrightarrow> cursor_ok self"
  by (cases "Read f self") (auto dest: Read_Inr_cursor_ok)

lemma step_Read_spec:
  "cursor_ok self \<Longrightarrow>
   step (OpRead f) self = Inr (self\<lparr>events := dropWhile f (unread self), cursor := 0\<rparr>)"
  by (simp add: Read_spec)

lemma step_Reset_spec:
  "cursor_ok self \<Longrightarrow> step (OpReset n) self = Inr (self\<lparr>events := unread self, cursor := 0\<rparr>)"
  by (simp add: Reset_def reset_spec)

lemma step_Inr_Reset: "step (OpReset n) self = Inr self' \<Longrightarrow> cursor_ok self"
  using reset_Inr_iff [of n self] by (auto simp: Reset_def)

lemma step_counter: "step x self = Inr self' \<Longrightarrow> counter self' = counter self"
proof (cases x)
  case (OpRead f)
  assume a: "step x self = Inr self'"
  with OpRead have "cursor_ok self"
    by (blast dest: step_Inr_Read)
  with a OpRead show ?thesis
    by (auto simp: step_Read_spec simp del: step.simps)
next
  case (OpReset n)
  assume a: "step x self = Inr self'"
  with OpReset have "cursor_ok self"
    by (blast dest: step_Inr_Reset)
  with a OpReset show ?thesis
    by (auto simp: step_Reset_spec simp del: step.simps)
qed (auto simp: append_evs_def)

lemma run_counter: "run xs self = Inr self' \<Longrightarrow> counter self' = counter self"
proof (induction xs arbitrary: self)
  case Nil
  then show ?case by simp
next
  case (Cons x xs)
  then show ?case
    by (auto split: sum.splits dest: step_counter)
qed

lemma step_cursor_ok: "cursor_ok self \<Longrightarrow> \<exists>self'. step x self = Inr self' \<and> cursor_ok self'"
proof (cases x)
  case (Append evs)
  assume "cursor_ok self"
  with Append show ?thesis
    by (simp add: append_evs_def cursor_ok_def)
next
  case (OpRead f)
  assume "cursor_ok self"
  with OpRead have "step x self = Inr (self\<lparr>events := dropWhile f (unread self), cursor := 0\<rparr>)"
    by (simp only: step_Read_spec)
  moreover have "cursor_ok (self\<lparr>events := dropWhile f (unread self), cursor := 0\<rparr>)"
    by (simp add: cursor_ok_def)
  ultimately show ?thesis
    by blast
next
  case (OpReset n)
  assume "cursor_ok self"
  with OpReset have "step x self = Inr (self\<lparr>events := unread self, cursor := 0\<rparr>)"
    by (simp only: step_Reset_spec)
  moreover have "cursor_ok (self\<lparr>events := unread self, cursor := 0\<rparr>)"
    by (simp add: cursor_ok_def)
  ultimately show ?thesis
    by blast
qed auto

lemma run_cursor_ok: "cursor_ok self \<Longrightarrow> \<exists>self'. run xs self = Inr self' \<and> cursor_ok self'"
proof (induction xs arbitrary: self)
  case Nil
  then show ?case by simp
next
  case (Cons x xs)
  from step_cursor_ok [OF Cons.prems, of x]
  obtain s1 where s1: "step x self = Inr s1" "cursor_ok s1"
    by blast
  from Cons.IH [OF s1(2)] s1(1) show ?case
    by simp
qed

lemma cursor_ok_NewJournal: "cursor_ok NewJournal"
  by (simp add: cursor_ok_def NewJournal_def)

lemma NewEntries_unread: "cursor_ok self \<Longrightarrow> NewEntries self = int (length (unread self))"
  by (auto simp: NewEntries_def unread_def cursor_ok_def)


lemma Write_until_closed:
  "Write (map Some evs @ None # rest) self = Some (append_evs evs self)"
  by (induction evs arbitrary: self) (simp_all add: append_evs_def)

lemma Write_blocked: "Write (map Some evs) self = None"
  by (induction evs arbitrary: self) simp_all

subsection \<open>The counter\<close>

text \<open>
  Claim C1: \<^verbatim>\<open>Counter()\<close> is the number of events ever appended to the journal,
  never decreasing, and one higher after each appended event. The code misses it. The
  struct declares the field \<^verbatim>\<open>counter\<close>, \<^verbatim>\<open>Counter()\<close> exports it and \<^verbatim>\<open>reset\<close>
  bounds a position by it, but the increment is left out: \<^verbatim>\<open>append\<close> extends
  \<^verbatim>\<open>events\<close> only. On a new journal whose \<^verbatim>\<open>Write\<close> loop has received one event
  and then found the channel closed, the buffer holds one entry and \<^verbatim>\<open>Counter()\<close>
  returns 0, not 1.
\<close>

theorem Counter_append_not_incremented:
  "run [Append [7::nat]] NewJournal = Inr (append_evs [7] NewJournal)
   \<and> Write [Some (7::nat), None] NewJournal = Some (append_evs [7] NewJournal)
   \<and> length (events (append_evs [7::nat] NewJournal)) = 1
   \<and> Counter (append_evs [7::nat] NewJournal) = 0
   \<and> Counter (append_evs [7::nat] NewJournal) \<noteq> Counter (NewJournal :: nat Journal) + 1"
  by (simp add: Counter_def append_evs_def NewJournal_def)

text \<open>
  How far the missing increment reaches: no operation assigns the field, neither
  \<^verbatim>\<open>append\<close> nor the trims of \<^verbatim>\<open>Read\<close> and \<^verbatim>\<open>Reset\<close>. The value \<^verbatim>\<open>Counter()\<close>
  returns therefore never decreases, but only because it never moves: on every journal
  reached from a new one it is 0, whatever has been appended, and the bound in
  \<^verbatim>\<open>reset\<close> turns every positive position into 0.
\<close>

theorem Counter_constant:
  "Counter self = counter self
   \<and> Counter (append_evs evs self) = Counter self
   \<and> (step x self = Inr self' \<longrightarrow> Counter self' = Counter self \<and> Counter self \<le> Counter self')
   \<and> (run xs NewJournal = Inr self'' \<longrightarrow> Counter self'' = 0)"
proof -
  have "run xs NewJournal = Inr self'' \<Longrightarrow> Counter self'' = 0"
    using run_counter [of xs NewJournal self'']
    by (simp add: Counter_def NewJournal_def)
  moreover have "step x self = Inr self' \<Longrightarrow> Counter self' = Counter self"
    by (simp add: Counter_def step_counter)
  moreover have "Counter (append_evs evs self) = Counter self"
    by (simp add: Counter_def append_evs_def)
  ultimately show ?thesis
    by (auto simp: Counter_def)
qed

theorem Counter_constant_witness:
  "step (Append [7::nat]) NewJournal = Inr (append_evs [7] NewJournal)
   \<and> Counter (append_evs [7::nat] NewJournal) = Counter (NewJournal :: nat Journal)
   \<and> run [Append [7::nat], OpReset 3, Append [8, 9]] NewJournal
       = Inr \<lparr>counter = 0, cursor = 0, events = [7, 8, 9]\<rparr>
   \<and> Counter \<lparr>counter = 0, cursor = 0, events = [7::nat, 8, 9]\<rparr> = 0"
proof -
  have r: "run [Append [7::nat], OpReset 3, Append [8, 9]] NewJournal
       = Inr \<lparr>counter = 0, cursor = 0, events = [7, 8, 9]\<rparr>"
    by (simp add: append_evs_def NewJournal_def Reset_def reset_def)
  have s: "step (Append [7::nat]) NewJournal = Inr (append_evs [7] NewJournal)"
    by simp
  from Counter_constant [of NewJournal "[7::nat]" "Append [7]" "append_evs [7] NewJournal"
      "[Append [7::nat], OpReset 3, Append [8, 9]]"
      "\<lparr>counter = 0, cursor = 0, events = [7, 8, 9]\<rparr>"] r s
  show ?thesis
    by blast
qed

subsection \<open>Reset\<close>

text \<open>
  Claim C2: \<^verbatim>\<open>Reset(n)\<close> does the same for every \<open>n\<close>. On a journal whose cursor
  lies within the buffer it drops the entries before the cursor and sets the cursor to 0;
  the argument is only clamped and never read again. (On a journal whose cursor lies
  outside the buffer, which no operation produces, the slice expression panics, again for
  every \<open>n\<close> alike.)
\<close>

theorem Reset_ignores_argument:
  "Reset n self = Reset m self
   \<and> (cursor_ok self \<longrightarrow>
        Reset n self = Inr (self\<lparr>events := drop (nat (cursor self)) (events self), cursor := 0\<rparr>))
   \<and> (\<not> cursor_ok self \<longrightarrow> Reset n self = Inl SliceBoundsOutOfRange)"
proof -
  have "Reset n self = Reset m self"
    by (simp add: Reset_def reset_def)
  moreover have "cursor_ok self \<Longrightarrow>
      Reset n self = Inr (self\<lparr>events := drop (nat (cursor self)) (events self), cursor := 0\<rparr>)"
    using reset_spec [of self n] by (simp add: Reset_def unread_def)
  moreover have "\<not> cursor_ok self \<Longrightarrow> Reset n self = Inl SliceBoundsOutOfRange"
    by (simp add: Reset_def reset_panics)
  ultimately show ?thesis
    by blast
qed

theorem Reset_ignores_argument_witness:
  "cursor_ok \<lparr>counter = 0, cursor = 1, events = [10, 20, 30::nat]\<rparr>
   \<and> Reset 5 \<lparr>counter = 0, cursor = 1, events = [10, 20, 30::nat]\<rparr>
       = Reset (- 2) \<lparr>counter = 0, cursor = 1, events = [10, 20, 30::nat]\<rparr>
   \<and> Reset 5 \<lparr>counter = 0, cursor = 1, events = [10, 20, 30::nat]\<rparr>
       = Inr \<lparr>counter = 0, cursor = 0, events = [20, 30]\<rparr>
   \<and> \<not> cursor_ok \<lparr>counter = 0, cursor = 4, events = [10::nat]\<rparr>
   \<and> Reset 5 \<lparr>counter = 0, cursor = 4, events = [10::nat]\<rparr> = Inl SliceBoundsOutOfRange"
proof -
  let ?a = "\<lparr>counter = 0, cursor = 1, events = [10, 20, 30::nat]\<rparr>"
  let ?b = "\<lparr>counter = 0, cursor = 4, events = [10::nat]\<rparr>"
  have ok: "cursor_ok ?a" and bad: "\<not> cursor_ok ?b"
    by (simp_all add: cursor_ok_def)
  from Reset_ignores_argument [of 5 ?a "- 2"] ok
  have "Reset 5 ?a = Reset (- 2) ?a"
    and "Reset 5 ?a = Inr (?a\<lparr>events := drop (nat (cursor ?a)) (events ?a), cursor := 0\<rparr>)"
    by blast+
  moreover from Reset_ignores_argument [of 5 ?b 0] bad
  have "Reset 5 ?b = Inl SliceBoundsOutOfRange"
    by blast
  ultimately show ?thesis
    using ok bad by simp
qed


subsection \<open>Read\<close>

text \<open>
  Claim C3: \<^verbatim>\<open>Read\<close> applies the predicate to the unread events in order from the
  cursor on, stopping after the first one it rejects; it consumes the longest prefix of
  unread events the predicate accepts, leaves the rest (the rejected entry first) unread,
  and returns the length of that prefix. If the first rejected entry is the \<open>k\<close>-th
  unread one, counted from 1, the result is \<open>k - 1\<close>.
\<close>

theorem Read_consumes_longest_prefix:
  assumes "cursor_ok self"
  shows "\<exists>r err self' calls.
     Read f self = Inr ((r, err), self', calls)
     \<and> r = int (length (takeWhile f (unread self)))
     \<and> calls = take (Suc (nat r)) (unread self)
     \<and> unread self' = dropWhile f (unread self)
     \<and> unread self = takeWhile f (unread self) @ unread self'
     \<and> (\<forall>k. 1 \<le> k \<and> k \<le> length (unread self)
            \<and> \<not> f (unread self ! (k - 1)) \<and> (\<forall>j < k - 1. f (unread self ! j))
          \<longrightarrow> r = int k - 1)"
proof -
  let ?u = "unread self"
  let ?r = "int (length (takeWhile f ?u))"
  let ?s = "self\<lparr>events := dropWhile f ?u, cursor := 0\<rparr>"
  have "Read f self = Inr ((?r, None), ?s, take (Suc (nat ?r)) ?u)"
    using Read_spec [OF assms, of f] by simp
  moreover have "unread ?s = dropWhile f ?u"
    by (simp add: unread_def)
  moreover have "?u = takeWhile f ?u @ unread ?s"
    by (simp add: unread_def)
  moreover have "?r = int k - 1"
    if "1 \<le> k \<and> k \<le> length ?u \<and> \<not> f (?u ! (k - 1)) \<and> (\<forall>j < k - 1. f (?u ! j))" for k
  proof -
    from that have "takeWhile f ?u = take (k - 1) ?u"
      by (intro takeWhile_eq_take_P_nth) auto
    then have "length (takeWhile f ?u) = min (length ?u) (k - 1)"
      by simp
    with that have "length (takeWhile f ?u) = k - 1"
      by linarith
    with that show ?thesis
      by (simp add: of_nat_diff)
  qed
  ultimately show ?thesis
    by blast
qed

theorem Read_consumes_longest_prefix_witness:
  "cursor_ok \<lparr>counter = 0, cursor = 1, events = [9, 1, 2, 5, 0::nat]\<rparr>
   \<and> unread \<lparr>counter = 0, cursor = 1, events = [9, 1, 2, 5, 0::nat]\<rparr> = [1, 2, 5, 0]
   \<and> Read (\<lambda>e. e < 3) \<lparr>counter = 0, cursor = 1, events = [9, 1, 2, 5, 0::nat]\<rparr>
       = Inr ((2, None), \<lparr>counter = 0, cursor = 0, events = [5, 0]\<rparr>, [1, 2, 5])"
proof -
  let ?a = "\<lparr>counter = 0, cursor = 1, events = [9, 1, 2, 5, 0::nat]\<rparr>"
  let ?f = "\<lambda>e::nat. e < 3"
  have ok: "cursor_ok ?a"
    by (simp add: cursor_ok_def)
  have u: "unread ?a = [1, 2, 5, 0]"
    by (simp add: unread_def)
  from Read_consumes_longest_prefix [OF ok, of ?f]
  obtain r err self' calls where
    R: "Read ?f ?a = Inr ((r, err), self', calls)"
    and c: "calls = take (Suc (nat r)) (unread ?a)"
    and K: "\<forall>k. 1 \<le> k \<and> k \<le> length (unread ?a)
            \<and> \<not> ?f (unread ?a ! (k - 1)) \<and> (\<forall>j < k - 1. ?f (unread ?a ! j))
          \<longrightarrow> r = int k - 1"
    by blast
  have "\<forall>j < 2. ?f ([1, 2, 5, 0] ! j)"
    by (simp add: less_Suc_eq numeral_2_eq_2)
  with K [rule_format, of 3] u have r2: "r = 2"
    by simp
  with c u have c2: "calls = [1, 2, 5]"
    by simp
  from Read_spec [OF ok, of ?f] R u have "err = None" and "self' = \<lparr>counter = 0, cursor = 0, events = [5, 0]\<rparr>"
    by simp_all
  with R r2 c2 ok u show ?thesis
    by simp
qed

text \<open>
  Claim C4: whatever the predicate, \<^verbatim>\<open>Read\<close> ends with a trim. On return the buffer
  holds exactly the unread entries that were not consumed and the cursor is 0; the
  consumed entries are gone. The events a second \<^verbatim>\<open>Read\<close> applies its predicate to
  are taken from the old unread entries after the consumed prefix, so none of the
  consumed entries is delivered again.
\<close>

theorem Read_trims_consumed:
  assumes "cursor_ok self"
  shows "\<exists>r self' calls.
     Read f self = Inr (r, self', calls)
     \<and> events self' = drop (length (takeWhile f (unread self))) (unread self)
     \<and> Cursor self' = 0
     \<and> cursor_ok self'
     \<and> (\<exists>r2 self2 calls2.
           Read g self' = Inr (r2, self2, calls2)
           \<and> calls2 = take (length calls2) (drop (length (takeWhile f (unread self))) (unread self)))"
proof -
  let ?u = "unread self"
  let ?s = "self\<lparr>events := dropWhile f ?u, cursor := 0\<rparr>"
  have ok': "cursor_ok ?s"
    by (simp add: cursor_ok_def)
  have u': "unread ?s = drop (length (takeWhile f ?u)) ?u"
    by (simp add: unread_def dropWhile_eq_drop)
  have R2: "Read g ?s = Inr ((int (length (takeWhile g (unread ?s))), None),
      ?s\<lparr>events := dropWhile g (unread ?s), cursor := 0\<rparr>,
      take (Suc (length (takeWhile g (unread ?s)))) (unread ?s))"
    by (rule Read_spec [OF ok'])
  have "take (Suc (length (takeWhile g (unread ?s)))) (unread ?s)
      = take (length (take (Suc (length (takeWhile g (unread ?s)))) (unread ?s))) (unread ?s)"
    by (rule take_length_take)
  with R2 u' have "\<exists>r2 self2 calls2. Read g ?s = Inr (r2, self2, calls2)
      \<and> calls2 = take (length calls2) (drop (length (takeWhile f ?u)) ?u)"
    by (metis (no_types, lifting))
  moreover have "events ?s = drop (length (takeWhile f ?u)) ?u"
    by (simp add: dropWhile_eq_drop)
  moreover have "Cursor ?s = 0"
    by (simp add: Cursor_def)
  ultimately show ?thesis
    using Read_spec [OF assms, of f] ok' by blast
qed

theorem Read_trims_consumed_witness:
  "cursor_ok \<lparr>counter = 0, cursor = 1, events = [9, 1, 2, 5, 0::nat]\<rparr>
   \<and> Read (\<lambda>e. e < 3) \<lparr>counter = 0, cursor = 1, events = [9, 1, 2, 5, 0::nat]\<rparr>
       = Inr ((2, None), \<lparr>counter = 0, cursor = 0, events = [5, 0]\<rparr>, [1, 2, 5])
   \<and> Read (\<lambda>e. 4 < e) \<lparr>counter = 0, cursor = 0, events = [5, 0::nat]\<rparr>
       = Inr ((1, None), \<lparr>counter = 0, cursor = 0, events = [0]\<rparr>, [5, 0])"
proof -
  let ?a = "\<lparr>counter = 0, cursor = 1, events = [9, 1, 2, 5, 0::nat]\<rparr>"
  let ?b = "\<lparr>counter = 0, cursor = 0, events = [5, 0::nat]\<rparr>"
  let ?f = "\<lambda>e::nat. e < 3"
  let ?g = "\<lambda>e::nat. 4 < e"
  have ok: "cursor_ok ?a"
    by (simp add: cursor_ok_def)
  have u: "unread ?a = [1, 2, 5, 0]"
    by (simp add: unread_def)
  from Read_trims_consumed [OF ok, of ?f ?g]
  obtain r self' calls r2 self2 calls2 where
    R: "Read ?f ?a = Inr (r, self', calls)"
    and ok': "cursor_ok self'"
    and R2: "Read ?g self' = Inr (r2, self2, calls2)"
    by blast
  from Read_spec [OF ok, of ?f] R u
  have 1: "r = (2, None)" "self' = ?b" "calls = [1, 2, 5]"
    by simp_all
  have ub: "unread ?b = [5, 0]"
    by (simp add: unread_def)
  from Read_spec [OF ok', of ?g] R2 1 ub
  have 2: "r2 = (1, None)" "self2 = \<lparr>counter = 0, cursor = 0, events = [0]\<rparr>" "calls2 = [5, 0]"
    by simp_all
  from R R2 1 2 ok show ?thesis
    by simp
qed

text \<open>
  Claim C7: the error \<^verbatim>\<open>Read\<close> returns is always \<^verbatim>\<open>nil\<close>. On every journal whose
  cursor lies within the buffer \<^verbatim>\<open>Read\<close> does return, and whenever it returns, for
  whatever predicate, the error component is \<^verbatim>\<open>nil\<close>.
\<close>

theorem Read_error_nil:
  "(cursor_ok self \<longrightarrow> (\<exists>r self' calls. Read f self = Inr ((r, None), self', calls)))
   \<and> (\<forall>r err self' calls. Read f self = Inr ((r, err), self', calls) \<longrightarrow> err = None)"
proof -
  have "\<exists>r self' calls. Read f self = Inr ((r, None), self', calls)" if "cursor_ok self"
    using Read_spec [OF that, of f] by blast
  moreover have "err = None" if "Read f self = Inr ((r, err), self', calls)" for r err self' calls
    using that by (auto simp: Read_def split: sum.splits prod.splits)
  ultimately show ?thesis
    by blast
qed

theorem Read_error_nil_witness:
  "cursor_ok \<lparr>counter = 0, cursor = 1, events = [9, 1, 2, 5, 0::nat]\<rparr>
   \<and> Read (\<lambda>e. e < 3) \<lparr>counter = 0, cursor = 1, events = [9, 1, 2, 5, 0::nat]\<rparr>
       = Inr ((2, None), \<lparr>counter = 0, cursor = 0, events = [5, 0]\<rparr>, [1, 2, 5])
   \<and> snd (fst (projr (Read (\<lambda>e. e < 3) \<lparr>counter = 0, cursor = 1, events = [9, 1, 2, 5, 0::nat]\<rparr>)))
       = None"
proof -
  let ?a = "\<lparr>counter = 0, cursor = 1, events = [9, 1, 2, 5, 0::nat]\<rparr>"
  let ?f = "\<lambda>e::nat. e < 3"
  have ok: "cursor_ok ?a"
    by (simp add: cursor_ok_def)
  have u: "unread ?a = [1, 2, 5, 0]"
    by (simp add: unread_def)
  from Read_error_nil [of ?a ?f] ok
  obtain r self' calls where R: "Read ?f ?a = Inr ((r, None), self', calls)"
    by blast
  from Read_spec [OF ok, of ?f] R u
  have "r = 2" "self' = \<lparr>counter = 0, cursor = 0, events = [5, 0]\<rparr>" "calls = [1, 2, 5]"
    by simp_all
  with R ok show ?thesis
    by simp
qed

subsection \<open>The backlog and the cursor bound\<close>

text \<open>
  Claim C5: \<^verbatim>\<open>NewEntries()\<close> is \<^verbatim>\<open>len(events) - cursor\<close>, the number of unread entries.
  Only \<^verbatim>\<open>append\<close> makes it grow (by the number of events appended), and only
  \<^verbatim>\<open>Read\<close> or \<^verbatim>\<open>Reset\<close> can make it shrink: \<^verbatim>\<open>Read\<close> lowers it by the number of
  entries it consumed, \<^verbatim>\<open>Reset\<close> and the accessors leave it as it is.
\<close>

theorem NewEntries_backlog:
  "NewEntries self = int (length (events self)) - cursor self
   \<and> (cursor_ok self \<longrightarrow> NewEntries self = int (length (unread self)))
   \<and> NewEntries (append_evs evs self) = NewEntries self + int (length evs)
   \<and> (step x self = Inr s1 \<longrightarrow>
        (NewEntries self < NewEntries s1 \<longrightarrow> (\<exists>evs. x = Append evs))
        \<and> (NewEntries s1 < NewEntries self \<longrightarrow> (\<exists>f. x = OpRead f) \<or> (\<exists>n. x = OpReset n)))
   \<and> (Read f self = Inr ((r, err), s2, calls) \<longrightarrow> NewEntries s2 = NewEntries self - r)
   \<and> (Reset n self = Inr s3 \<longrightarrow> NewEntries s3 = NewEntries self)"
proof -
  have rd: "NewEntries t = NewEntries self - r2"
    if "Read h self = Inr ((r2, e2), t, c2)" for h r2 e2 t c2
  proof -
    from that have ok: "cursor_ok self"
      by (rule Read_Inr_cursor_ok)
    have "length (unread self) = length (takeWhile h (unread self)) + length (dropWhile h (unread self))"
      by (metis length_append takeWhile_dropWhile_id)
    with Read_spec [OF ok, of h] that NewEntries_unread [OF ok] show ?thesis
      by (auto simp: NewEntries_def)
  qed
  have rs: "NewEntries t = NewEntries self" if "Reset k self = Inr t" for k t
  proof -
    from that have ok: "cursor_ok self"
      using reset_Inr_iff [of k self] by (auto simp: Reset_def)
    with reset_spec [OF ok, of k] that NewEntries_unread [OF ok] show ?thesis
      by (auto simp: NewEntries_def Reset_def)
  qed
  have ap: "NewEntries (append_evs es self) = NewEntries self + int (length es)" for es
    by (simp add: NewEntries_def append_evs_def)
  have st: "(NewEntries self < NewEntries s1 \<longrightarrow> (\<exists>evs. x = Append evs))
        \<and> (NewEntries s1 < NewEntries self \<longrightarrow> (\<exists>f. x = OpRead f) \<or> (\<exists>n. x = OpReset n))"
    if s: "step x self = Inr s1"
  proof (cases x)
    case (Append es)
    with s ap [of es] show ?thesis by auto
  next
    case (OpRead h)
    with s obtain r2 e2 c2 where "Read h self = Inr ((r2, e2), s1, c2)"
      by (cases "Read h self") auto
    from rd [OF this] Read_spec [OF Read_Inr_cursor_ok [OF this], of h] this OpRead show ?thesis
      by auto
  next
    case (OpReset k)
    with s rs [of k s1] show ?thesis by auto
  qed (use s in auto)
  show ?thesis
    using rd [of f r err s2 calls] rs [of n s3] ap [of evs] st NewEntries_unread [of self]
    by (simp add: NewEntries_def [of self])
qed

theorem NewEntries_backlog_witness:
  "cursor_ok \<lparr>counter = 0, cursor = 1, events = [9, 1, 2, 5, 0::nat]\<rparr>
   \<and> NewEntries \<lparr>counter = 0, cursor = 1, events = [9, 1, 2, 5, 0::nat]\<rparr> = 4
   \<and> step (Append [6]) \<lparr>counter = 0, cursor = 1, events = [9, 1, 2, 5, 0::nat]\<rparr>
       = Inr \<lparr>counter = 0, cursor = 1, events = [9, 1, 2, 5, 0, 6]\<rparr>
   \<and> NewEntries \<lparr>counter = 0, cursor = 1, events = [9, 1, 2, 5, 0::nat]\<rparr>
       < NewEntries \<lparr>counter = 0, cursor = 1, events = [9, 1, 2, 5, 0, 6::nat]\<rparr>
   \<and> Read (\<lambda>e. e < 3) \<lparr>counter = 0, cursor = 1, events = [9, 1, 2, 5, 0::nat]\<rparr>
       = Inr ((2, None), \<lparr>counter = 0, cursor = 0, events = [5, 0]\<rparr>, [1, 2, 5])
   \<and> NewEntries \<lparr>counter = 0, cursor = 0, events = [5, 0::nat]\<rparr> = 4 - 2
   \<and> Reset 7 \<lparr>counter = 0, cursor = 1, events = [9, 1, 2, 5, 0::nat]\<rparr>
       = Inr \<lparr>counter = 0, cursor = 0, events = [1, 2, 5, 0]\<rparr>
   \<and> NewEntries \<lparr>counter = 0, cursor = 0, events = [1, 2, 5, 0::nat]\<rparr> = 4"
proof -
  let ?a = "\<lparr>counter = 0, cursor = 1, events = [9, 1, 2, 5, 0::nat]\<rparr>"
  let ?b = "\<lparr>counter = 0, cursor = 1, events = [9, 1, 2, 5, 0, 6::nat]\<rparr>"
  let ?c = "\<lparr>counter = 0, cursor = 0, events = [5, 0::nat]\<rparr>"
  let ?d = "\<lparr>counter = 0, cursor = 0, events = [1, 2, 5, 0::nat]\<rparr>"
  let ?f = "\<lambda>e::nat. e < 3"
  have ok: "cursor_ok ?a"
    by (simp add: cursor_ok_def)
  have u: "unread ?a = [1, 2, 5, 0]"
    by (simp add: unread_def)
  have st: "step (Append [6]) ?a = Inr ?b"
    by (simp add: append_evs_def)
  have rd: "Read ?f ?a = Inr ((2, None), ?c, [1, 2, 5])"
    using Read_spec [OF ok, of ?f] u by simp
  have rs: "Reset 7 ?a = Inr ?d"
    using reset_spec [OF ok, of 7] u by (simp add: Reset_def)
  from NewEntries_backlog [of ?a "[6]" "Append [6]" ?b ?f 2 None ?c "[1, 2, 5]" 7 ?d] ok st rd rs u
  have "NewEntries ?a = 4" "NewEntries ?c = NewEntries ?a - 2" "NewEntries ?d = NewEntries ?a"
    by simp_all
  moreover have "NewEntries ?a < NewEntries ?b"
    by (simp add: NewEntries_def)
  ultimately show ?thesis
    using ok st rd rs by simp
qed

text \<open>
  Claim C6: \<^verbatim>\<open>0 <= cursor <= len(events)\<close> holds on a new journal, and every
  operation (append, Read, Reset and the three accessors) started on a journal within the
  bound returns a journal within the bound; so it holds after every sequence of
  operations on a new journal.
\<close>

theorem cursor_within_events:
  "cursor_ok NewJournal
   \<and> (cursor_ok self \<longrightarrow> (\<exists>self'. step x self = Inr self' \<and> cursor_ok self'))
   \<and> (\<exists>self'. run xs NewJournal = Inr self'
         \<and> 0 \<le> Cursor self' \<and> Cursor self' \<le> int (length (events self')))"
proof -
  from run_cursor_ok [OF cursor_ok_NewJournal, of xs]
  have "\<exists>self'. run xs NewJournal = Inr self'
         \<and> 0 \<le> Cursor self' \<and> Cursor self' \<le> int (length (events self'))"
    by (simp add: cursor_ok_def Cursor_def)
  with step_cursor_ok [of self x] cursor_ok_NewJournal show ?thesis
    by blast
qed

theorem cursor_within_events_witness:
  "cursor_ok \<lparr>counter = 0, cursor = 1, events = [9, 1, 2, 5, 0::nat]\<rparr>
   \<and> step (OpRead (\<lambda>e. e < 3)) \<lparr>counter = 0, cursor = 1, events = [9, 1, 2, 5, 0::nat]\<rparr>
       = Inr \<lparr>counter = 0, cursor = 0, events = [5, 0]\<rparr>
   \<and> cursor_ok \<lparr>counter = 0, cursor = 0, events = [5, 0::nat]\<rparr>"
proof -
  let ?a = "\<lparr>counter = 0, cursor = 1, events = [9, 1, 2, 5, 0::nat]\<rparr>"
  let ?f = "\<lambda>e::nat. e < 3"
  have ok: "cursor_ok ?a"
    by (simp add: cursor_ok_def)
  have u: "unread ?a = [1, 2, 5, 0]"
    by (simp add: unread_def)
  from cursor_within_events [of ?a "OpRead ?f" "[]"] ok
  obtain self' where s: "step (OpRead ?f) ?a = Inr self'" and ok': "cursor_ok self'"
    by blast
  from step_Read_spec [OF ok, of ?f] s u have "self' = \<lparr>counter = 0, cursor = 0, events = [5, 0]\<rparr>"
    by (simp del: step.simps)
  with s ok ok' show ?thesis
    by (simp del: step.simps)
qed

section \<open>Properties of the driver\<close>

subsection \<open>One pass of each loop\<close>

lemma nodes_on_stop:
  "\<not> (0 < length (offNodes st) \<and> i < n) \<Longrightarrow>
   MockNetwork_nodes_on i n st mux rs = Returned (st, mux, rs)"
  by (subst MockNetwork_nodes_on.simps) auto

lemma nodes_on_Nil:
  "0 < length (offNodes st) \<Longrightarrow> i < n \<Longrightarrow> MockNetwork_nodes_on i n st mux [] = NeedsDraw (st, mux, [])"
  by (subst MockNetwork_nodes_on.simps) (simp add: Intn_def)

lemma nodes_on_Cons:
  "0 < length (offNodes st) \<Longrightarrow> i < n \<Longrightarrow>
   MockNetwork_nodes_on i n st mux (r # rs) =
     (if stopped mux then Panicked (PostError ''event: mux closed'')
      else MockNetwork_nodes_on (i + 1) n
        (st\<lparr>onNodes := onNodes st @ [\<lparr>ID = offNodes st ! (r mod length (offNodes st))\<rparr>],
            offNodes := take (r mod length (offNodes st)) (offNodes st)
                        @ drop (r mod length (offNodes st) + 1) (offNodes st)\<rparr>)
        (mux\<lparr>posted := posted mux
           @ [\<lparr>Type = ''Node'', Action = ''On'',
               Object = NodeObject \<lparr>ID = offNodes st ! (r mod length (offNodes st))\<rparr>\<rparr>]\<rparr>)
        rs)"
  by (subst MockNetwork_nodes_on.simps) (simp add: Intn_def Post_def Let_def)

lemma nodes_off_stop:
  "\<not> (0 < length (onNodes st) \<and> i < n) \<Longrightarrow>
   MockNetwork_nodes_off i n st mux rs = Returned (st, mux, rs)"
  by (subst MockNetwork_nodes_off.simps) auto

lemma nodes_off_Nil:
  "0 < length (onNodes st) \<Longrightarrow> i < n \<Longrightarrow> MockNetwork_nodes_off i n st mux [] = NeedsDraw (st, mux, [])"
  by (subst MockNetwork_nodes_off.simps) (simp add: Intn_def)

lemma nodes_off_Cons:
  "0 < length (onNodes st) \<Longrightarrow> i < n \<Longrightarrow>
   MockNetwork_nodes_off i n st mux (r # rs) =
     (if stopped mux then Panicked (PostError ''event: mux closed'')
      else MockNetwork_nodes_off (i + 1) n
        (st\<lparr>onNodes := take (r mod length (onNodes st)) (onNodes st)
                        @ drop (r mod length (onNodes st) + 1) (onNodes st),
            offNodes := offNodes st @ [ID (onNodes st ! (r mod length (onNodes st)))]\<rparr>)
        (mux\<lparr>posted := posted mux
           @ [\<lparr>Type = ''Node'', Action = ''Off'',
               Object = NodeObject (onNodes st ! (r mod length (onNodes st)))\<rparr>]\<rparr>)
        rs)"
  by (subst MockNetwork_nodes_off.simps) (simp add: Intn_def Post_def Let_def)

lemma conns_on_stop:
  "\<not> (1 < length (onNodes st) \<and> i < n) \<Longrightarrow>
   MockNetwork_conns_on i n st mux rs = Returned (st, mux, rs)"
  by (subst MockNetwork_conns_on.simps) auto

lemma conns_on_Nil:
  "1 < length (onNodes st) \<Longrightarrow> i < n \<Longrightarrow> MockNetwork_conns_on i n st mux [] = NeedsDraw (st, mux, [])"
  by (subst MockNetwork_conns_on.simps) (simp add: Intn_def)

lemma conns_on_single:
  "1 < length (onNodes st) \<Longrightarrow> i < n \<Longrightarrow> MockNetwork_conns_on i n st mux [r] = NeedsDraw (st, mux, [])"
  by (subst MockNetwork_conns_on.simps) (simp add: Intn_def)

lemma conns_on_Cons:
  "1 < length (onNodes st) \<Longrightarrow> i < n \<Longrightarrow>
   MockNetwork_conns_on i n st mux (r1 # r2 # rs) =
     (if 0 \<le> bytes_Compare (ID (onNodes st ! (r1 mod length (onNodes st))))
                            (ID (onNodes st ! (r2 mod length (onNodes st))))
      then MockNetwork_conns_on i n st mux rs
      else if stopped mux then Panicked (PostError ''event: mux closed'')
      else MockNetwork_conns_on (i + 1) n
        (st\<lparr>onConns := onConns st
           @ [\<lparr>Caller = ID (onNodes st ! (r1 mod length (onNodes st))),
               Callee = ID (onNodes st ! (r2 mod length (onNodes st)))\<rparr>]\<rparr>)
        (mux\<lparr>posted := posted mux
           @ [\<lparr>Type = ''Conn'', Action = ''On'',
               Object = ConnObject
                 \<lparr>Caller = ID (onNodes st ! (r1 mod length (onNodes st))),
                  Callee = ID (onNodes st ! (r2 mod length (onNodes st)))\<rparr>\<rparr>]\<rparr>)
        rs)"
  by (subst MockNetwork_conns_on.simps) (simp add: Intn_def Post_def Let_def)

lemma conns_off_stop:
  "\<not> (0 < length (onConns st) \<and> i < n) \<Longrightarrow>
   MockNetwork_conns_off i n st mux rs = Returned (st, mux, rs)"
  by (subst MockNetwork_conns_off.simps) auto

lemma conns_off_Nil:
  "0 < length (onConns st) \<Longrightarrow> i < n \<Longrightarrow> MockNetwork_conns_off i n st mux [] = NeedsDraw (st, mux, [])"
  by (subst MockNetwork_conns_off.simps) (simp add: Intn_def)

lemma conns_off_Cons:
  "0 < length (onConns st) \<Longrightarrow> i < n \<Longrightarrow>
   MockNetwork_conns_off i n st mux (r # rs) =
     (if stopped mux then Panicked (PostError ''event: mux closed'')
      else MockNetwork_conns_off (i + 1) n
        (st\<lparr>onConns := take (r mod length (onConns st)) (onConns st)
                        @ drop (r mod length (onConns st) + 1) (onConns st)\<rparr>)
        (mux\<lparr>posted := posted mux
           @ [\<lparr>Type = ''Conn'', Action = ''Off'',
               Object = ConnObject (onConns st ! (r mod length (onConns st)))\<rparr>]\<rparr>)
        rs)"
  by (subst MockNetwork_conns_off.simps) (simp add: Intn_def Post_def Let_def)

subsection \<open>Replaying a log\<close>

lemma mset_remove_nth:
  "c < length xs \<Longrightarrow> mset (take c xs @ drop (c + 1) xs) = mset xs - {#xs ! c#}"
proof -
  assume c: "c < length xs"
  then have "xs = take c xs @ xs ! c # drop (Suc c) xs"
    by (rule id_take_nth_drop)
  then have "mset xs = add_mset (xs ! c) (mset (take c xs @ drop (Suc c) xs))"
    by (metis mset.simps(2) mset_append union_mset_add_mset_right)
  then show ?thesis
    by simp
qed

lemma replay_nodes_append:
  "replay_nodes (xs @ ys) p = (case replay_nodes xs p of None \<Rightarrow> None | Some q \<Rightarrow> replay_nodes ys q)"
  by (induction xs p rule: replay_nodes.induct) (auto split: object.splits)

lemma replay_nodes_sum:
  "replay_nodes ps (a, b) = Some (a', b') \<Longrightarrow> a' + b' = a + b"
proof (induction ps arbitrary: a b)
  case Nil
  then show ?case by simp
next
  case (Cons e es)
  show ?case
  proof (cases "Object e")
    case (ConnObject sc)
    with Cons show ?thesis by simp
  next
    case (NodeObject sn)
    consider (on) "Type e = ''Node'' \<and> Action e = ''On''"
      | (off) "\<not> (Type e = ''Node'' \<and> Action e = ''On'')" "Type e = ''Node'' \<and> Action e = ''Off''"
      | (other) "\<not> (Type e = ''Node'' \<and> Action e = ''On'')" "\<not> (Type e = ''Node'' \<and> Action e = ''Off'')"
      by blast
    then show ?thesis
    proof cases
      case on
      with Cons.prems NodeObject have m: "ID sn \<in># b"
        and r: "replay_nodes es (add_mset (ID sn) a, b - {#ID sn#}) = Some (a', b')"
        by (auto split: if_splits)
      from Cons.IH [OF r] m show ?thesis
        by simp
    next
      case off
      with Cons.prems NodeObject have m: "ID sn \<in># a"
        and r: "replay_nodes es (a - {#ID sn#}, add_mset (ID sn) b) = Some (a', b')"
        by (auto split: if_splits)
      from Cons.IH [OF r] m show ?thesis
        by simp
    next
      case other
      with Cons.prems NodeObject have "replay_nodes es (a, b) = Some (a', b')"
        by auto
      from Cons.IH [OF this] show ?thesis .
    qed
  qed
qed

lemma replay_nodes_conns:
  "list_all (\<lambda>e. case Object e of NodeObject sn \<Rightarrow> False | ConnObject sc \<Rightarrow> True) ps \<Longrightarrow>
   replay_nodes ps p = Some p"
  by (induction ps p rule: replay_nodes.induct) (auto split: object.splits)


subsection \<open>What a loop has done when it ends\<close>

lemma reaches_Returned [simp]: "reaches (Returned x) y \<longleftrightarrow> x = y"
  by (auto simp: reaches_def)

lemma reaches_NeedsDraw [simp]: "reaches (NeedsDraw x) y \<longleftrightarrow> x = y"
  by (auto simp: reaches_def)

lemma reaches_Panicked [simp]: "\<not> reaches (Panicked p) y"
  by (simp add: reaches_def)

lemma nodes_on_reaches:
  "reaches (MockNetwork_nodes_on i n st mux rs) (st', mux', rs') \<Longrightarrow>
   \<exists>ps. posted mux' = posted mux @ ps
     \<and> stopped mux' = stopped mux
     \<and> list_all is_node_on ps
     \<and> replay_nodes ps (pools st) = Some (pools st')
     \<and> onConns st' = onConns st
     \<and> length (onNodes st') = length (onNodes st) + length ps
     \<and> (if MockNetwork_nodes_on i n st mux rs = Returned (st', mux', rs')
         then int (length ps) = max 0 (min (n - i) (int (length (offNodes st))))
         else int (length ps) < max 0 (min (n - i) (int (length (offNodes st)))))"
proof (induction rs arbitrary: i st mux)
  case Nil
  show ?case
  proof (cases "0 < length (offNodes st) \<and> i < n")
    case True
    with Nil have "st' = st" "mux' = mux"
      by (simp_all add: nodes_on_Nil)
    with True show ?thesis
      by (intro exI [of _ "[]"]) (auto simp: nodes_on_Nil)
  next
    case False
    with Nil have "st' = st" "mux' = mux" "rs' = []"
      by (simp_all add: nodes_on_stop)
    with False show ?thesis
      by (intro exI [of _ "[]"]) (auto simp: nodes_on_stop)
  qed
next
  case (Cons r rs)
  show ?case
  proof (cases "0 < length (offNodes st) \<and> i < n")
    case False
    with Cons.prems have "st' = st" "mux' = mux" "rs' = r # rs"
      by (simp_all add: nodes_on_stop)
    with False show ?thesis
      by (intro exI [of _ "[]"]) (auto simp: nodes_on_stop)
  next
    case True
    define c where "c = r mod length (offNodes st)"
    define e where "e = \<lparr>Type = ''Node'', Action = ''On'', Object = NodeObject \<lparr>ID = offNodes st ! c\<rparr>\<rparr>"
    define st1 where "st1 = st\<lparr>onNodes := onNodes st @ [\<lparr>ID = offNodes st ! c\<rparr>],
          offNodes := take c (offNodes st) @ drop (c + 1) (offNodes st)\<rparr>"
    define mux1 where "mux1 = mux\<lparr>posted := posted mux @ [e]\<rparr>"
    from True have c: "c < length (offNodes st)"
      by (simp add: c_def)
    from Cons.prems True have ns: "\<not> stopped mux"
      by (auto simp: nodes_on_Cons split: if_splits)
    with True have E: "MockNetwork_nodes_on i n st mux (r # rs)
        = MockNetwork_nodes_on (i + 1) n st1 mux1 rs"
      by (simp add: nodes_on_Cons c_def e_def st1_def mux1_def)
    with Cons.prems have R: "reaches (MockNetwork_nodes_on (i + 1) n st1 mux1 rs) (st', mux', rs')"
      by simp
    from Cons.IH [OF R] obtain ps where ps:
      "posted mux' = posted mux1 @ ps" "stopped mux' = stopped mux1" "list_all is_node_on ps"
      "replay_nodes ps (pools st1) = Some (pools st')" "onConns st' = onConns st1"
      "length (onNodes st') = length (onNodes st1) + length ps"
      "if MockNetwork_nodes_on (i + 1) n st1 mux1 rs = Returned (st', mux', rs')
       then int (length ps) = max 0 (min (n - (i + 1)) (int (length (offNodes st1))))
       else int (length ps) < max 0 (min (n - (i + 1)) (int (length (offNodes st1))))"
      by blast
    have "length (offNodes st1) + 1 = length (offNodes st)"
      using c by (simp add: st1_def)
    then have len1: "int (length (offNodes st1)) = int (length (offNodes st)) - 1"
      by linarith
    have bound: "max 0 (min (n - i) (int (length (offNodes st))))
        = 1 + max 0 (min (n - (i + 1)) (int (length (offNodes st1))))"
      using True unfolding len1 by (simp add: min_def max_def)
    have p1: "pools st1 = (add_mset (offNodes st ! c) (fst (pools st)), snd (pools st) - {#offNodes st ! c#})"
      using mset_remove_nth [OF c] by (simp add: pools_def st1_def)
    have mem: "offNodes st ! c \<in># snd (pools st)"
      using c by (simp add: pools_def)
    have rp: "replay_nodes (e # ps) (pools st) = Some (pools st')"
      using ps(4) p1 mem by (simp add: e_def pools_def)
    have "posted mux' = posted mux @ (e # ps)"
      using ps(1) by (simp add: mux1_def)
    moreover have "stopped mux' = stopped mux"
      using ps(2) by (simp add: mux1_def)
    moreover have "list_all is_node_on (e # ps)"
      using ps(3) by (simp add: is_node_on_def e_def)
    moreover have "onConns st' = onConns st"
      using ps(5) by (simp add: st1_def)
    moreover have "length (onNodes st') = length (onNodes st) + length (e # ps)"
      using ps(6) by (simp add: st1_def)
    moreover have "if MockNetwork_nodes_on i n st mux (r # rs) = Returned (st', mux', rs')
         then int (length (e # ps)) = max 0 (min (n - i) (int (length (offNodes st))))
         else int (length (e # ps)) < max 0 (min (n - i) (int (length (offNodes st))))"
      using ps(7) unfolding E bound by (simp split: if_splits)
    ultimately show ?thesis
      using rp by blast
  qed
qed

lemma nodes_off_reaches:
  "reaches (MockNetwork_nodes_off i n st mux rs) (st', mux', rs') \<Longrightarrow>
   \<exists>ps. posted mux' = posted mux @ ps
     \<and> stopped mux' = stopped mux
     \<and> replay_nodes ps (pools st) = Some (pools st')
     \<and> onConns st' = onConns st
     \<and> (if MockNetwork_nodes_off i n st mux rs = Returned (st', mux', rs')
         then int (length ps) = max 0 (min (n - i) (int (length (onNodes st))))
         else int (length ps) < max 0 (min (n - i) (int (length (onNodes st)))))"
proof (induction rs arbitrary: i st mux)
  case Nil
  show ?case
  proof (cases "0 < length (onNodes st) \<and> i < n")
    case True
    with Nil have "st' = st" "mux' = mux"
      by (simp_all add: nodes_off_Nil)
    with True show ?thesis
      by (intro exI [of _ "[]"]) (auto simp: nodes_off_Nil)
  next
    case False
    with Nil have "st' = st" "mux' = mux" "rs' = []"
      by (simp_all add: nodes_off_stop)
    with False show ?thesis
      by (intro exI [of _ "[]"]) (auto simp: nodes_off_stop)
  qed
next
  case (Cons r rs)
  show ?case
  proof (cases "0 < length (onNodes st) \<and> i < n")
    case False
    with Cons.prems have "st' = st" "mux' = mux" "rs' = r # rs"
      by (simp_all add: nodes_off_stop)
    with False show ?thesis
      by (intro exI [of _ "[]"]) (auto simp: nodes_off_stop)
  next
    case True
    define c where "c = r mod length (onNodes st)"
    define e where "e = \<lparr>Type = ''Node'', Action = ''Off'', Object = NodeObject (onNodes st ! c)\<rparr>"
    define st1 where "st1 = st\<lparr>onNodes := take c (onNodes st) @ drop (c + 1) (onNodes st),
          offNodes := offNodes st @ [ID (onNodes st ! c)]\<rparr>"
    define mux1 where "mux1 = mux\<lparr>posted := posted mux @ [e]\<rparr>"
    from True have c: "c < length (onNodes st)"
      by (simp add: c_def)
    from Cons.prems True have ns: "\<not> stopped mux"
      by (auto simp: nodes_off_Cons split: if_splits)
    with True have E: "MockNetwork_nodes_off i n st mux (r # rs)
        = MockNetwork_nodes_off (i + 1) n st1 mux1 rs"
      by (simp add: nodes_off_Cons c_def e_def st1_def mux1_def)
    with Cons.prems have R: "reaches (MockNetwork_nodes_off (i + 1) n st1 mux1 rs) (st', mux', rs')"
      by simp
    from Cons.IH [OF R] obtain ps where ps:
      "posted mux' = posted mux1 @ ps" "stopped mux' = stopped mux1"
      "replay_nodes ps (pools st1) = Some (pools st')" "onConns st' = onConns st1"
      "if MockNetwork_nodes_off (i + 1) n st1 mux1 rs = Returned (st', mux', rs')
       then int (length ps) = max 0 (min (n - (i + 1)) (int (length (onNodes st1))))
       else int (length ps) < max 0 (min (n - (i + 1)) (int (length (onNodes st1))))"
      by blast
    have "length (onNodes st1) + 1 = length (onNodes st)"
      using c by (simp add: st1_def)
    then have len1: "int (length (onNodes st1)) = int (length (onNodes st)) - 1"
      by linarith
    have bound: "max 0 (min (n - i) (int (length (onNodes st))))
        = 1 + max 0 (min (n - (i + 1)) (int (length (onNodes st1))))"
      using True unfolding len1 by (simp add: min_def max_def)
    have c': "c < length (map ID (onNodes st))"
      using c by simp
    have "mset (map ID (take c (onNodes st) @ drop (c + 1) (onNodes st)))
        = mset (take c (map ID (onNodes st)) @ drop (c + 1) (map ID (onNodes st)))"
      by (simp add: take_map drop_map)
    also have "\<dots> = mset (map ID (onNodes st)) - {#map ID (onNodes st) ! c#}"
      by (rule mset_remove_nth [OF c'])
    finally have rem: "mset (map ID (take c (onNodes st) @ drop (c + 1) (onNodes st)))
        = mset (map ID (onNodes st)) - {#ID (onNodes st ! c)#}"
      using c by simp
    have p1: "pools st1 = (fst (pools st) - {#ID (onNodes st ! c)#}, add_mset (ID (onNodes st ! c)) (snd (pools st)))"
      using rem by (simp add: pools_def st1_def)
    have mem: "ID (onNodes st ! c) \<in># fst (pools st)"
      using c by (simp add: pools_def)
    have rp: "replay_nodes (e # ps) (pools st) = Some (pools st')"
      using ps(3) p1 mem by (simp add: e_def pools_def)
    have "posted mux' = posted mux @ (e # ps)"
      using ps(1) by (simp add: mux1_def)
    moreover have "stopped mux' = stopped mux"
      using ps(2) by (simp add: mux1_def)
    moreover have "onConns st' = onConns st"
      using ps(4) by (simp add: st1_def)
    moreover have "if MockNetwork_nodes_off i n st mux (r # rs) = Returned (st', mux', rs')
         then int (length (e # ps)) = max 0 (min (n - i) (int (length (onNodes st))))
         else int (length (e # ps)) < max 0 (min (n - i) (int (length (onNodes st))))"
      using ps(5) unfolding E bound by (simp split: if_splits)
    ultimately show ?thesis
      using rp by blast
  qed
qed

lemma conns_on_reaches:
  "reaches (MockNetwork_conns_on i n st mux rs) (st', mux', rs') \<Longrightarrow>
   \<exists>ps. posted mux' = posted mux @ ps
     \<and> stopped mux' = stopped mux
     \<and> list_all is_ordered_conn_on ps
     \<and> onNodes st' = onNodes st
     \<and> offNodes st' = offNodes st
     \<and> (if MockNetwork_conns_on i n st mux rs = Returned (st', mux', rs')
         then int (length ps) = (if 1 < length (onNodes st) then max 0 (n - i) else 0)
         else int (length ps) < (if 1 < length (onNodes st) then max 0 (n - i) else 0))"
proof (induction rs arbitrary: i st mux rule: induct_list012)
  case 1
  show ?case
  proof (cases "1 < length (onNodes st) \<and> i < n")
    case True
    with 1 have "st' = st" "mux' = mux"
      by (simp_all add: conns_on_Nil)
    with True show ?thesis
      by (intro exI [of _ "[]"]) (auto simp: conns_on_Nil)
  next
    case False
    with 1 have "st' = st" "mux' = mux" "rs' = []"
      by (simp_all add: conns_on_stop)
    with False show ?thesis
      by (intro exI [of _ "[]"]) (auto simp: conns_on_stop)
  qed
next
  case (2 r)
  show ?case
  proof (cases "1 < length (onNodes st) \<and> i < n")
    case True
    with 2 have "st' = st" "mux' = mux"
      by (simp_all add: conns_on_single)
    with True show ?thesis
      by (intro exI [of _ "[]"]) (auto simp: conns_on_single)
  next
    case False
    with 2 have "st' = st" "mux' = mux" "rs' = [r]"
      by (simp_all add: conns_on_stop)
    with False show ?thesis
      by (intro exI [of _ "[]"]) (auto simp: conns_on_stop)
  qed
next
  case (3 r1 r2 rs)
  show ?case
  proof (cases "1 < length (onNodes st) \<and> i < n")
    case False
    with "3.prems" have "st' = st" "mux' = mux" "rs' = r1 # r2 # rs"
      by (simp_all add: conns_on_stop)
    with False show ?thesis
      by (intro exI [of _ "[]"]) (auto simp: conns_on_stop)
  next
    case True
    define caller where "caller = ID (onNodes st ! (r1 mod length (onNodes st)))"
    define callee where "callee = ID (onNodes st ! (r2 mod length (onNodes st)))"
    show ?thesis
    proof (cases "0 \<le> bytes_Compare caller callee")
      case retry: True
      with True have E: "MockNetwork_conns_on i n st mux (r1 # r2 # rs)
          = MockNetwork_conns_on i n st mux rs"
        by (simp add: conns_on_Cons caller_def callee_def)
      with "3.prems" have "reaches (MockNetwork_conns_on i n st mux rs) (st', mux', rs')"
        by simp
      from "3.IH"(1) [OF this] show ?thesis
        unfolding E .
    next
      case ordered: False
      define e where "e = \<lparr>Type = ''Conn'', Action = ''On'',
          Object = ConnObject \<lparr>Caller = caller, Callee = callee\<rparr>\<rparr>"
      define st1 where "st1 = st\<lparr>onConns := onConns st @ [\<lparr>Caller = caller, Callee = callee\<rparr>]\<rparr>"
      define mux1 where "mux1 = mux\<lparr>posted := posted mux @ [e]\<rparr>"
      from "3.prems" True ordered have ns: "\<not> stopped mux"
        by (auto simp: conns_on_Cons caller_def callee_def split: if_splits)
      with True ordered have E: "MockNetwork_conns_on i n st mux (r1 # r2 # rs)
          = MockNetwork_conns_on (i + 1) n st1 mux1 rs"
        by (simp add: conns_on_Cons caller_def callee_def e_def st1_def mux1_def)
      with "3.prems" have R: "reaches (MockNetwork_conns_on (i + 1) n st1 mux1 rs) (st', mux', rs')"
        by simp
      from "3.IH"(1) [OF R] obtain ps where ps:
        "posted mux' = posted mux1 @ ps" "stopped mux' = stopped mux1"
        "list_all is_ordered_conn_on ps" "onNodes st' = onNodes st1" "offNodes st' = offNodes st1"
        "if MockNetwork_conns_on (i + 1) n st1 mux1 rs = Returned (st', mux', rs')
         then int (length ps) = (if 1 < length (onNodes st1) then max 0 (n - (i + 1)) else 0)
         else int (length ps) < (if 1 < length (onNodes st1) then max 0 (n - (i + 1)) else 0)"
        by blast
      have on1: "onNodes st1 = onNodes st"
        by (simp add: st1_def)
      have bound: "(if 1 < length (onNodes st) then max 0 (n - i) else 0)
          = 1 + (if 1 < length (onNodes st1) then max 0 (n - (i + 1)) else 0)"
        using True unfolding on1 by (simp add: max_def)
      have "posted mux' = posted mux @ (e # ps)"
        using ps(1) by (simp add: mux1_def)
      moreover have "stopped mux' = stopped mux"
        using ps(2) by (simp add: mux1_def)
      moreover have "list_all is_ordered_conn_on (e # ps)"
        using ps(3) ordered by (simp add: is_ordered_conn_on_def e_def)
      moreover have "onNodes st' = onNodes st" "offNodes st' = offNodes st"
        using ps(4,5) by (simp_all add: st1_def)
      moreover have "if MockNetwork_conns_on i n st mux (r1 # r2 # rs) = Returned (st', mux', rs')
         then int (length (e # ps)) = (if 1 < length (onNodes st) then max 0 (n - i) else 0)
         else int (length (e # ps)) < (if 1 < length (onNodes st) then max 0 (n - i) else 0)"
        using ps(6) unfolding E bound by (simp split: if_splits)
      ultimately show ?thesis
        by blast
    qed
  qed
qed

lemma conns_off_reaches:
  "reaches (MockNetwork_conns_off i n st mux rs) (st', mux', rs') \<Longrightarrow>
   \<exists>ps. posted mux' = posted mux @ ps
     \<and> stopped mux' = stopped mux
     \<and> list_all (\<lambda>e. case Object e of NodeObject sn \<Rightarrow> False | ConnObject sc \<Rightarrow> True) ps
     \<and> onNodes st' = onNodes st
     \<and> offNodes st' = offNodes st"
proof (induction rs arbitrary: i st mux)
  case Nil
  show ?case
  proof (cases "0 < length (onConns st) \<and> i < n")
    case True
    with Nil have "st' = st" "mux' = mux"
      by (simp_all add: conns_off_Nil)
    then show ?thesis
      by (intro exI [of _ "[]"]) auto
  next
    case False
    with Nil have "st' = st" "mux' = mux"
      by (simp_all add: conns_off_stop)
    then show ?thesis
      by (intro exI [of _ "[]"]) auto
  qed
next
  case (Cons r rs)
  show ?case
  proof (cases "0 < length (onConns st) \<and> i < n")
    case False
    with Cons.prems have "st' = st" "mux' = mux"
      by (simp_all add: conns_off_stop)
    then show ?thesis
      by (intro exI [of _ "[]"]) auto
  next
    case True
    define c where "c = r mod length (onConns st)"
    define e where "e = \<lparr>Type = ''Conn'', Action = ''Off'', Object = ConnObject (onConns st ! c)\<rparr>"
    define st1 where "st1 = st\<lparr>onConns := take c (onConns st) @ drop (c + 1) (onConns st)\<rparr>"
    define mux1 where "mux1 = mux\<lparr>posted := posted mux @ [e]\<rparr>"
    from Cons.prems True have ns: "\<not> stopped mux"
      by (auto simp: conns_off_Cons split: if_splits)
    with True have E: "MockNetwork_conns_off i n st mux (r # rs)
        = MockNetwork_conns_off (i + 1) n st1 mux1 rs"
      by (simp add: conns_off_Cons c_def e_def st1_def mux1_def)
    with Cons.prems have R: "reaches (MockNetwork_conns_off (i + 1) n st1 mux1 rs) (st', mux', rs')"
      by simp
    from Cons.IH [OF R] obtain ps where ps:
      "posted mux' = posted mux1 @ ps" "stopped mux' = stopped mux1"
      "list_all (\<lambda>e. case Object e of NodeObject sn \<Rightarrow> False | ConnObject sc \<Rightarrow> True) ps"
      "onNodes st' = onNodes st1" "offNodes st' = offNodes st1"
      by blast
    have "posted mux' = posted mux @ (e # ps)"
      using ps(1) by (simp add: mux1_def)
    moreover have "stopped mux' = stopped mux"
      using ps(2) by (simp add: mux1_def)
    moreover have "list_all (\<lambda>e. case Object e of NodeObject sn \<Rightarrow> False | ConnObject sc \<Rightarrow> True) (e # ps)"
      using ps(3) by (simp add: e_def)
    moreover have "onNodes st' = onNodes st" "offNodes st' = offNodes st"
      using ps(4,5) by (simp_all add: st1_def)
    ultimately show ?thesis
      by blast
  qed
qed

lemma ordered_conn_on_is_conn:
  "list_all is_ordered_conn_on ps \<Longrightarrow>
   list_all (\<lambda>e. case Object e of NodeObject sn \<Rightarrow> False | ConnObject sc \<Rightarrow> True) ps"
  by (induction ps) (auto simp: is_ordered_conn_on_def split: object.splits)

subsection \<open>No loop panics while the multiplexer is running\<close>

lemma nodes_on_no_panic:
  "\<not> stopped mux \<Longrightarrow> MockNetwork_nodes_on i n st mux rs \<noteq> Panicked p"
proof (induction rs arbitrary: i st mux)
  case Nil
  then show ?case
    by (cases "0 < length (offNodes st) \<and> i < n") (simp_all add: nodes_on_Nil nodes_on_stop)
next
  case (Cons r rs)
  show ?case
  proof (cases "0 < length (offNodes st) \<and> i < n")
    case True
    with Cons.prems Cons.IH show ?thesis
      by (simp add: nodes_on_Cons)
  next
    case False
    then show ?thesis
      by (simp add: nodes_on_stop)
  qed
qed

lemma nodes_off_no_panic:
  "\<not> stopped mux \<Longrightarrow> MockNetwork_nodes_off i n st mux rs \<noteq> Panicked p"
proof (induction rs arbitrary: i st mux)
  case Nil
  then show ?case
    by (cases "0 < length (onNodes st) \<and> i < n") (simp_all add: nodes_off_Nil nodes_off_stop)
next
  case (Cons r rs)
  show ?case
  proof (cases "0 < length (onNodes st) \<and> i < n")
    case True
    with Cons.prems Cons.IH show ?thesis
      by (simp add: nodes_off_Cons)
  next
    case False
    then show ?thesis
      by (simp add: nodes_off_stop)
  qed
qed

lemma conns_on_no_panic:
  "\<not> stopped mux \<Longrightarrow> MockNetwork_conns_on i n st mux rs \<noteq> Panicked p"
proof (induction rs arbitrary: i st mux rule: induct_list012)
  case 1
  then show ?case
    by (cases "1 < length (onNodes st) \<and> i < n") (simp_all add: conns_on_Nil conns_on_stop)
next
  case (2 r)
  then show ?case
    by (cases "1 < length (onNodes st) \<and> i < n") (simp_all add: conns_on_single conns_on_stop)
next
  case (3 r1 r2 rs)
  show ?case
  proof (cases "1 < length (onNodes st) \<and> i < n")
    case True
    with "3.prems" "3.IH"(1) show ?thesis
      by (simp add: conns_on_Cons)
  next
    case False
    then show ?thesis
      by (simp add: conns_on_stop)
  qed
qed

lemma conns_off_no_panic:
  "\<not> stopped mux \<Longrightarrow> MockNetwork_conns_off i n st mux rs \<noteq> Panicked p"
proof (induction rs arbitrary: i st mux)
  case Nil
  then show ?case
    by (cases "0 < length (onConns st) \<and> i < n") (simp_all add: conns_off_Nil conns_off_stop)
next
  case (Cons r rs)
  show ?case
  proof (cases "0 < length (onConns st) \<and> i < n")
    case True
    with Cons.prems Cons.IH show ?thesis
      by (simp add: conns_off_Cons)
  next
    case False
    then show ?thesis
      by (simp add: conns_off_stop)
  qed
qed


subsection \<open>A whole tick\<close>

lemma reachesI_NeedsDraw: "out = NeedsDraw x \<Longrightarrow> reaches out x"
  by (simp add: reaches_def)

lemma reachesI_Returned: "out = Returned x \<Longrightarrow> reaches out x"
  by (simp add: reaches_def)

lemma advances_refl: "advances st mux st mux"
  unfolding advances_def by (intro exI [of _ "[]"]) simp

lemma advances_trans:
  assumes "advances st mux st1 mux1" and "advances st1 mux1 st2 mux2"
  shows "advances st mux st2 mux2"
proof -
  from assms(1) obtain p1 where p1:
    "posted mux1 = posted mux @ p1" "stopped mux1 = stopped mux"
    "replay_nodes p1 (pools st) = Some (pools st1)"
    unfolding advances_def by blast
  from assms(2) obtain p2 where p2:
    "posted mux2 = posted mux1 @ p2" "stopped mux2 = stopped mux1"
    "replay_nodes p2 (pools st1) = Some (pools st2)"
    unfolding advances_def by blast
  have "replay_nodes (p1 @ p2) (pools st) = Some (pools st2)"
    using p1(3) p2(3) by (simp add: replay_nodes_append)
  moreover have "posted mux2 = posted mux @ (p1 @ p2)"
    using p1(1) p2(1) by simp
  moreover have "stopped mux2 = stopped mux"
    using p1(2) p2(2) by simp
  ultimately show ?thesis
    unfolding advances_def by blast
qed

lemma advances_stopped: "advances st mux st' mux' \<Longrightarrow> stopped mux' = stopped mux"
  unfolding advances_def by blast

lemma nodes_on_advances:
  "reaches (MockNetwork_nodes_on i n st mux rs) (st', mux', rs') \<Longrightarrow> advances st mux st' mux'"
  unfolding advances_def by (drule nodes_on_reaches) blast

lemma nodes_off_advances:
  "reaches (MockNetwork_nodes_off i n st mux rs) (st', mux', rs') \<Longrightarrow> advances st mux st' mux'"
  unfolding advances_def by (drule nodes_off_reaches) blast

lemma conns_on_advances:
  assumes "reaches (MockNetwork_conns_on i n st mux rs) (st', mux', rs')"
  shows "advances st mux st' mux'"
proof -
  from conns_on_reaches [OF assms] obtain ps where ps:
    "posted mux' = posted mux @ ps" "stopped mux' = stopped mux"
    "list_all is_ordered_conn_on ps" "onNodes st' = onNodes st" "offNodes st' = offNodes st"
    by blast
  have "replay_nodes ps (pools st) = Some (pools st)"
    by (rule replay_nodes_conns [OF ordered_conn_on_is_conn [OF ps(3)]])
  moreover have "pools st' = pools st"
    using ps(4,5) by (simp add: pools_def)
  ultimately show ?thesis
    using ps(1,2) unfolding advances_def by auto
qed

lemma conns_off_advances:
  assumes "reaches (MockNetwork_conns_off i n st mux rs) (st', mux', rs')"
  shows "advances st mux st' mux'"
proof -
  from conns_off_reaches [OF assms] obtain ps where ps:
    "posted mux' = posted mux @ ps" "stopped mux' = stopped mux"
    "list_all (\<lambda>e. case Object e of NodeObject sn \<Rightarrow> False | ConnObject sc \<Rightarrow> True) ps"
    "onNodes st' = onNodes st" "offNodes st' = offNodes st"
    by blast
  have "replay_nodes ps (pools st) = Some (pools st)"
    by (rule replay_nodes_conns [OF ps(3)])
  moreover have "pools st' = pools st"
    using ps(4,5) by (simp add: pools_def)
  ultimately show ?thesis
    using ps(1,2) unfolding advances_def by auto
qed

text \<open>Where a tick can end: without its deltas, inside one of the four loops, or after the last.\<close>

lemma tick_reaches_cases:
  assumes "reaches (MockNetwork_tick n st mux rs) x"
  obtains
    (no_deltas) "deltas n rs = None" "x = (st, mux, rs)"
      "MockNetwork_tick n st mux rs = NeedsDraw x"
  | (in_nodes_on) ds rs0 where "deltas n rs = Some (ds, rs0)"
      "MockNetwork_nodes_on 0 (On (ds ! 0)) st mux rs0 = NeedsDraw x"
      "MockNetwork_tick n st mux rs = NeedsDraw x"
  | (in_nodes_off) ds rs0 st1 mux1 rs1 where "deltas n rs = Some (ds, rs0)"
      "MockNetwork_nodes_on 0 (On (ds ! 0)) st mux rs0 = Returned (st1, mux1, rs1)"
      "MockNetwork_nodes_off 0 (Off (ds ! 0)) st1 mux1 rs1 = NeedsDraw x"
      "MockNetwork_tick n st mux rs = NeedsDraw x"
  | (in_conns_on) ds rs0 st1 mux1 rs1 st2 mux2 rs2 where "deltas n rs = Some (ds, rs0)"
      "MockNetwork_nodes_on 0 (On (ds ! 0)) st mux rs0 = Returned (st1, mux1, rs1)"
      "MockNetwork_nodes_off 0 (Off (ds ! 0)) st1 mux1 rs1 = Returned (st2, mux2, rs2)"
      "MockNetwork_conns_on 0 (On (ds ! 1)) st2 mux2 rs2 = NeedsDraw x"
      "MockNetwork_tick n st mux rs = NeedsDraw x"
  | (in_conns_off) ds rs0 st1 mux1 rs1 st2 mux2 rs2 st3 mux3 rs3 where "deltas n rs = Some (ds, rs0)"
      "MockNetwork_nodes_on 0 (On (ds ! 0)) st mux rs0 = Returned (st1, mux1, rs1)"
      "MockNetwork_nodes_off 0 (Off (ds ! 0)) st1 mux1 rs1 = Returned (st2, mux2, rs2)"
      "MockNetwork_conns_on 0 (On (ds ! 1)) st2 mux2 rs2 = Returned (st3, mux3, rs3)"
      "reaches (MockNetwork_conns_off 0 (Off (ds ! 1)) st3 mux3 rs3) x"
      "MockNetwork_tick n st mux rs = MockNetwork_conns_off 0 (Off (ds ! 1)) st3 mux3 rs3"
proof (cases "deltas n rs")
  case None
  with assms no_deltas show ?thesis
    by (simp add: MockNetwork_tick_def)
next
  case (Some a)
  obtain ds rs0 where a: "a = (ds, rs0)"
    by (cases a) auto
  note ds = Some [unfolded a]
  show ?thesis
  proof (cases "MockNetwork_nodes_on 0 (On (ds ! 0)) st mux rs0")
    case (NeedsDraw y)
    with assms ds in_nodes_on show ?thesis
      by (simp add: MockNetwork_tick_def)
  next
    case (Panicked p)
    with assms ds show ?thesis
      by (simp add: MockNetwork_tick_def)
  next
    case (Returned y1)
    obtain st1 mux1 rs1 where y1: "y1 = (st1, mux1, rs1)"
      by (cases y1) auto
    note o1 = Returned [unfolded y1]
    show ?thesis
    proof (cases "MockNetwork_nodes_off 0 (Off (ds ! 0)) st1 mux1 rs1")
      case (NeedsDraw y)
      with assms ds o1 in_nodes_off show ?thesis
        by (simp add: MockNetwork_tick_def)
    next
      case (Panicked p)
      with assms ds o1 show ?thesis
        by (simp add: MockNetwork_tick_def)
    next
      case (Returned y2)
      obtain st2 mux2 rs2 where y2: "y2 = (st2, mux2, rs2)"
        by (cases y2) auto
      note o2 = Returned [unfolded y2]
      show ?thesis
      proof (cases "MockNetwork_conns_on 0 (On (ds ! 1)) st2 mux2 rs2")
        case (NeedsDraw y)
        with assms ds o1 o2 in_conns_on show ?thesis
          by (simp add: MockNetwork_tick_def)
      next
        case (Panicked p)
        with assms ds o1 o2 show ?thesis
          by (simp add: MockNetwork_tick_def)
      next
        case (Returned y3)
        obtain st3 mux3 rs3 where y3: "y3 = (st3, mux3, rs3)"
          by (cases y3) auto
        note o3 = Returned [unfolded y3]
        have "MockNetwork_tick n st mux rs = MockNetwork_conns_off 0 (Off (ds ! 1)) st3 mux3 rs3"
          using ds o1 o2 o3 by (simp add: MockNetwork_tick_def)
        with assms ds o1 o2 o3 in_conns_off show ?thesis
          by simp
      qed
    qed
  qed
qed

lemma tick_advances:
  assumes "reaches (MockNetwork_tick n st mux rs) (st', mux', rs')"
  shows "advances st mux st' mux'"
  using assms
proof (cases rule: tick_reaches_cases)
  case no_deltas
  then show ?thesis
    by (simp add: advances_refl)
next
  case (in_nodes_on ds rs0)
  show ?thesis
    by (rule nodes_on_advances [OF reachesI_NeedsDraw [OF in_nodes_on(2)]])
next
  case (in_nodes_off ds rs0 st1 mux1 rs1)
  have "advances st mux st1 mux1"
    by (rule nodes_on_advances [OF reachesI_Returned [OF in_nodes_off(2)]])
  moreover have "advances st1 mux1 st' mux'"
    by (rule nodes_off_advances [OF reachesI_NeedsDraw [OF in_nodes_off(3)]])
  ultimately show ?thesis
    by (rule advances_trans)
next
  case (in_conns_on ds rs0 st1 mux1 rs1 st2 mux2 rs2)
  have "advances st mux st1 mux1"
    by (rule nodes_on_advances [OF reachesI_Returned [OF in_conns_on(2)]])
  moreover have "advances st1 mux1 st2 mux2"
    by (rule nodes_off_advances [OF reachesI_Returned [OF in_conns_on(3)]])
  moreover have "advances st2 mux2 st' mux'"
    by (rule conns_on_advances [OF reachesI_NeedsDraw [OF in_conns_on(4)]])
  ultimately show ?thesis
    by (blast intro: advances_trans)
next
  case (in_conns_off ds rs0 st1 mux1 rs1 st2 mux2 rs2 st3 mux3 rs3)
  have "advances st mux st1 mux1"
    by (rule nodes_on_advances [OF reachesI_Returned [OF in_conns_off(2)]])
  moreover have "advances st1 mux1 st2 mux2"
    by (rule nodes_off_advances [OF reachesI_Returned [OF in_conns_off(3)]])
  moreover have "advances st2 mux2 st3 mux3"
    by (rule conns_on_advances [OF reachesI_Returned [OF in_conns_off(4)]])
  moreover have "advances st3 mux3 st' mux'"
    by (rule conns_off_advances [OF in_conns_off(5)])
  ultimately show ?thesis
    by (blast intro: advances_trans)
qed

lemma tick_no_panic:
  assumes "\<not> stopped mux"
  shows "MockNetwork_tick n st mux rs \<noteq> Panicked p"
proof
  assume P: "MockNetwork_tick n st mux rs = Panicked p"
  then obtain ds rs0 where ds: "deltas n rs = Some (ds, rs0)"
    by (auto simp: MockNetwork_tick_def split: option.splits)
  show False
  proof (cases "MockNetwork_nodes_on 0 (On (ds ! 0)) st mux rs0")
    case (NeedsDraw y)
    with P ds show False by (simp add: MockNetwork_tick_def)
  next
    case (Panicked q)
    with nodes_on_no_panic [OF assms] show False by blast
  next
    case (Returned x1)
    obtain st1 mux1 rs1 where x1: "x1 = (st1, mux1, rs1)"
      by (cases x1) auto
    have "advances st mux st1 mux1"
      by (rule nodes_on_advances [OF reachesI_Returned [OF Returned [unfolded x1]]])
    with assms have s1: "\<not> stopped mux1"
      by (simp add: advances_stopped)
    show False
    proof (cases "MockNetwork_nodes_off 0 (Off (ds ! 0)) st1 mux1 rs1")
      case (NeedsDraw y)
      with P ds Returned x1 show False by (simp add: MockNetwork_tick_def)
    next
      case (Panicked q)
      with nodes_off_no_panic [OF s1] show False by blast
    next
      case R2: (Returned x2)
      obtain st2 mux2 rs2 where x2: "x2 = (st2, mux2, rs2)"
        by (cases x2) auto
      have "advances st1 mux1 st2 mux2"
        by (rule nodes_off_advances [OF reachesI_Returned [OF R2 [unfolded x2]]])
      with s1 have s2: "\<not> stopped mux2"
        by (simp add: advances_stopped)
      show False
      proof (cases "MockNetwork_conns_on 0 (On (ds ! 1)) st2 mux2 rs2")
        case (NeedsDraw y)
        with P ds Returned x1 R2 x2 show False by (simp add: MockNetwork_tick_def)
      next
        case (Panicked q)
        with conns_on_no_panic [OF s2] show False by blast
      next
        case R3: (Returned x3)
        obtain st3 mux3 rs3 where x3: "x3 = (st3, mux3, rs3)"
          by (cases x3) auto
        have "advances st2 mux2 st3 mux3"
          by (rule conns_on_advances [OF reachesI_Returned [OF R3 [unfolded x3]]])
        with s2 have s3: "\<not> stopped mux3"
          by (simp add: advances_stopped)
        from P ds Returned x1 R2 x2 R3 x3
        have "MockNetwork_conns_off 0 (Off (ds ! 1)) st3 mux3 rs3 = Panicked p"
          by (simp add: MockNetwork_tick_def)
        with conns_off_no_panic [OF s3] show False by blast
      qed
    qed
  qed
qed

lemma ticks_advances:
  "reaches (MockNetwork_ticks k n st mux rs) (st', mux', rs') \<Longrightarrow> advances st mux st' mux'"
proof (induction k arbitrary: n st mux rs)
  case 0
  then show ?case
    by (simp add: advances_refl)
next
  case (Suc k)
  show ?case
  proof (cases "MockNetwork_tick n st mux rs")
    case (NeedsDraw y)
    with Suc.prems have "reaches (MockNetwork_tick n st mux rs) (st', mux', rs')"
      by simp
    then show ?thesis
      by (rule tick_advances)
  next
    case (Panicked p)
    with Suc.prems show ?thesis
      by simp
  next
    case (Returned y)
    obtain st1 mux1 rs1 where y: "y = (st1, mux1, rs1)"
      by (cases y) auto
    have "advances st mux st1 mux1"
      by (rule tick_advances [OF reachesI_Returned [OF Returned [unfolded y]]])
    moreover from Suc.prems Returned y
    have "reaches (MockNetwork_ticks k (n + 1) st1 mux1 rs1) (st', mux', rs')"
      by simp
    then have "advances st1 mux1 st' mux'"
      by (rule Suc.IH)
    ultimately show ?thesis
      by (rule advances_trans)
  qed
qed

lemma ticks_no_panic:
  "\<not> stopped mux \<Longrightarrow> MockNetwork_ticks k n st mux rs \<noteq> Panicked p"
proof (induction k arbitrary: n st mux rs)
  case 0
  then show ?case by simp
next
  case (Suc k)
  show ?case
  proof (cases "MockNetwork_tick n st mux rs")
    case (NeedsDraw y)
    then show ?thesis by simp
  next
    case (Panicked q)
    with tick_no_panic [OF Suc.prems] show ?thesis by blast
  next
    case (Returned x)
    obtain st1 mux1 rs1 where x: "x = (st1, mux1, rs1)"
      by (cases x) auto
    have "advances st mux st1 mux1"
      by (rule tick_advances [OF reachesI_Returned [OF Returned [unfolded x]]])
    with Suc.prems have "\<not> stopped mux1"
      by (simp add: advances_stopped)
    from Suc.IH [OF this] Returned x show ?thesis
      by simp
  qed
qed

subsection \<open>Draws that carry a loop through\<close>

lemma bytes_Compare_total:
  "a \<noteq> b \<Longrightarrow> bytes_Compare a b < 0 \<or> bytes_Compare b a < 0"
  by (induction a b rule: bytes_Compare.induct) auto

lemma bytes_Compare_lexord:
  "bytes_Compare a b < 0 \<longleftrightarrow> (a, b) \<in> lexord {(x, y). x < y}"
  by (induction a b rule: bytes_Compare.induct) auto

lemma nodes_on_zeros:
  "k \<le> length (offNodes st) \<Longrightarrow> \<not> stopped mux \<Longrightarrow>
   \<exists>st' mux'.
     MockNetwork_nodes_on i (i + int k) st mux (replicate k 0 @ rest) = Returned (st', mux', rest)
     \<and> map ID (onNodes st') = map ID (onNodes st) @ take k (offNodes st)
     \<and> \<not> stopped mux'"
proof (induction k arbitrary: i st mux)
  case 0
  then show ?case
    by (simp add: nodes_on_stop)
next
  case (Suc k)
  define st1 where "st1 = st\<lparr>onNodes := onNodes st @ [\<lparr>ID = offNodes st ! 0\<rparr>],
        offNodes := take 0 (offNodes st) @ drop (0 + 1) (offNodes st)\<rparr>"
  define mux1 where "mux1 = mux\<lparr>posted := posted mux
      @ [\<lparr>Type = ''Node'', Action = ''On'', Object = NodeObject \<lparr>ID = offNodes st ! 0\<rparr>\<rparr>]\<rparr>"
  from Suc.prems obtain x xs where off: "offNodes st = x # xs"
    by (cases "offNodes st") auto
  have step: "MockNetwork_nodes_on i (i + int (Suc k)) st mux (replicate (Suc k) 0 @ rest)
      = MockNetwork_nodes_on (i + 1) (i + int (Suc k)) st1 mux1 (replicate k 0 @ rest)"
    using Suc.prems off by (simp add: nodes_on_Cons st1_def mux1_def)
  have "k \<le> length (offNodes st1)" "\<not> stopped mux1"
    using Suc.prems off by (simp_all add: st1_def mux1_def)
  from Suc.IH [OF this, of "i + 1"] obtain st' mux' where
    R: "MockNetwork_nodes_on (i + 1) (i + 1 + int k) st1 mux1 (replicate k 0 @ rest)
        = Returned (st', mux', rest)"
    and m: "map ID (onNodes st') = map ID (onNodes st1) @ take k (offNodes st1)"
    and s: "\<not> stopped mux'"
    by blast
  have "i + 1 + int k = i + int (Suc k)"
    by simp
  with R step have "MockNetwork_nodes_on i (i + int (Suc k)) st mux (replicate (Suc k) 0 @ rest)
      = Returned (st', mux', rest)"
    by simp
  moreover have "map ID (onNodes st') = map ID (onNodes st) @ take (Suc k) (offNodes st)"
    using m off by (simp add: st1_def)
  ultimately show ?case
    using s by blast
qed

lemma conns_on_ordered_pairs:
  assumes "1 < length (onNodes st)"
    and "bytes_Compare (ID (onNodes st ! (a mod length (onNodes st))))
                        (ID (onNodes st ! (b mod length (onNodes st)))) < 0"
    and "\<not> stopped mux"
  shows "\<exists>st' mux'.
     MockNetwork_conns_on i (i + int k) st mux (concat (replicate k [a, b]) @ rest)
       = Returned (st', mux', rest)"
  using assms
proof (induction k arbitrary: i st mux)
  case 0
  then show ?case
    by (simp add: conns_on_stop)
next
  case (Suc k)
  define sc where "sc = \<lparr>Caller = ID (onNodes st ! (a mod length (onNodes st))),
      Callee = ID (onNodes st ! (b mod length (onNodes st)))\<rparr>"
  define st1 where "st1 = st\<lparr>onConns := onConns st @ [sc]\<rparr>"
  define mux1 where "mux1 = mux\<lparr>posted := posted mux
      @ [\<lparr>Type = ''Conn'', Action = ''On'', Object = ConnObject sc\<rparr>]\<rparr>"
  have step: "MockNetwork_conns_on i (i + int (Suc k)) st mux (concat (replicate (Suc k) [a, b]) @ rest)
      = MockNetwork_conns_on (i + 1) (i + int (Suc k)) st1 mux1 (concat (replicate k [a, b]) @ rest)"
    using Suc.prems by (simp add: conns_on_Cons st1_def mux1_def sc_def)
  have "1 < length (onNodes st1)"
    and "bytes_Compare (ID (onNodes st1 ! (a mod length (onNodes st1))))
                        (ID (onNodes st1 ! (b mod length (onNodes st1)))) < 0"
    and "\<not> stopped mux1"
    using Suc.prems by (simp_all add: st1_def mux1_def)
  from Suc.IH [OF this, of "i + 1"] obtain st' mux' where
    "MockNetwork_conns_on (i + 1) (i + 1 + int k) st1 mux1 (concat (replicate k [a, b]) @ rest)
        = Returned (st', mux', rest)"
    by blast
  moreover have "i + 1 + int k = i + int (Suc k)"
    by simp
  ultimately show ?case
    using step by auto
qed

subsection \<open>Tick 0\<close>

lemma deltas_0: "deltas 0 rs = Some ([\<lparr>On = 10, Off = 0\<rparr>, \<lparr>On = 20, Off = 0\<rparr>], rs)"
  by (simp add: deltas_def)

lemma tick0_reaches:
  assumes "reaches (MockNetwork_tick 0 st mux rs) (st', mux', rs')"
    and "onNodes st = []" and "10 \<le> length (offNodes st)"
  shows "\<exists>ps. posted mux' = posted mux @ ps
     \<and> list_all is_node_on (take 10 ps)
     \<and> list_all is_ordered_conn_on (drop 10 ps)
     \<and> (if MockNetwork_tick 0 st mux rs = Returned (st', mux', rs')
         then length ps = 30 else length ps < 30)"
  using assms(1)
proof (cases rule: tick_reaches_cases)
  case no_deltas
  then show ?thesis
    by (simp add: deltas_0)
next
  case (in_nodes_on ds rs0)
  from in_nodes_on(1) have dv: "On (ds ! 0) = 10"
    by (auto simp: deltas_0)
  from nodes_on_reaches [OF reachesI_NeedsDraw [OF in_nodes_on(2)]] in_nodes_on(2) assms(3) dv
  obtain p1 where p1: "posted mux' = posted mux @ p1" "list_all is_node_on p1" "length p1 < 10"
    by auto
  then have "list_all is_node_on (take 10 p1)" "list_all is_ordered_conn_on (drop 10 p1)"
    "length p1 < 30"
    by simp_all
  with p1(1) in_nodes_on(3) show ?thesis
    by auto
next
  case (in_nodes_off ds rs0 st1 mux1 rs1)
  from in_nodes_off(1) have "Off (ds ! 0) = 0"
    by (auto simp: deltas_0)
  with in_nodes_off(3) show ?thesis
    by (simp add: nodes_off_stop)
next
  case (in_conns_on ds rs0 st1 mux1 rs1 st2 mux2 rs2)
  from in_conns_on(1) have dv: "On (ds ! 0) = 10" "Off (ds ! 0) = 0" "On (ds ! 1) = 20"
    by (auto simp: deltas_0)
  from nodes_on_reaches [OF reachesI_Returned [OF in_conns_on(2)]] in_conns_on(2) assms(2,3) dv
  obtain p1 where p1: "posted mux1 = posted mux @ p1" "list_all is_node_on p1"
    "length (onNodes st1) = length p1" "length p1 = 10"
    by auto
  from in_conns_on(3) dv have b: "st2 = st1" "mux2 = mux1"
    by (simp_all add: nodes_off_stop)
  from conns_on_reaches [OF reachesI_NeedsDraw [OF in_conns_on(4)]] in_conns_on(4) b p1 dv
  obtain p3 where p3: "posted mux' = posted mux1 @ p3" "list_all is_ordered_conn_on p3"
    "length p3 < 20"
    by auto
  have "posted mux' = posted mux @ (p1 @ p3)"
    using p1(1) p3(1) by simp
  moreover have "list_all is_node_on (take 10 (p1 @ p3))"
    using p1(2,4) by simp
  moreover have "list_all is_ordered_conn_on (drop 10 (p1 @ p3))"
    using p3(2) p1(4) by simp
  moreover have "length (p1 @ p3) < 30"
    using p1(4) p3(3) by simp
  ultimately show ?thesis
    using in_conns_on(5) by auto
next
  case (in_conns_off ds rs0 st1 mux1 rs1 st2 mux2 rs2 st3 mux3 rs3)
  from in_conns_off(1) have dv: "On (ds ! 0) = 10" "Off (ds ! 0) = 0" "On (ds ! 1) = 20"
    "Off (ds ! 1) = 0"
    by (auto simp: deltas_0)
  from nodes_on_reaches [OF reachesI_Returned [OF in_conns_off(2)]] in_conns_off(2) assms(2,3) dv
  obtain p1 where p1: "posted mux1 = posted mux @ p1" "list_all is_node_on p1"
    "length (onNodes st1) = length p1" "length p1 = 10"
    by auto
  from in_conns_off(3) dv have b: "st2 = st1" "mux2 = mux1"
    by (simp_all add: nodes_off_stop)
  from conns_on_reaches [OF reachesI_Returned [OF in_conns_off(4)]] in_conns_off(4) b p1 dv
  obtain p3 where p3: "posted mux3 = posted mux1 @ p3" "list_all is_ordered_conn_on p3"
    "length p3 = 20"
    by auto
  have off: "MockNetwork_conns_off 0 (Off (ds ! 1)) st3 mux3 rs3 = Returned (st3, mux3, rs3)"
    using dv by (simp add: conns_off_stop)
  with in_conns_off(5) have d: "st' = st3" "mux' = mux3" "rs' = rs3"
    by simp_all
  have "posted mux' = posted mux @ (p1 @ p3)"
    using p1(1) p3(1) d by simp
  moreover have "list_all is_node_on (take 10 (p1 @ p3))"
    using p1(2,4) by simp
  moreover have "list_all is_ordered_conn_on (drop 10 (p1 @ p3))"
    using p3(2) p1(4) by simp
  moreover have "length (p1 @ p3) = 30"
    using p1(4) p3(3) by simp
  moreover have "MockNetwork_tick 0 st mux rs = Returned (st', mux', rs')"
    using in_conns_off(6) off d by simp
  ultimately show ?thesis
    by auto
qed

lemma tick0_returns:
  assumes "onNodes st = []" and "10 \<le> length (offNodes st)" and "\<not> stopped mux"
    and "offNodes st ! 0 \<noteq> offNodes st ! 1"
  shows "\<exists>rs st' mux'. MockNetwork_tick 0 st mux rs = Returned (st', mux', [])"
proof -
  from nodes_on_zeros [of 10 st mux 0] assms
  have A: "\<exists>st1 mux1. MockNetwork_nodes_on 0 10 st mux (replicate 10 0 @ rest) = Returned (st1, mux1, rest)
      \<and> map ID (onNodes st1) = take 10 (offNodes st) \<and> \<not> stopped mux1" for rest
    by simp
  define x where "x = offNodes st ! 0"
  define y where "y = offNodes st ! 1"
  from assms(4) bytes_Compare_total [of x y]
  have "bytes_Compare x y < 0 \<or> bytes_Compare y x < 0"
    by (simp add: x_def y_def)
  then obtain a b :: nat where
    ab: "a < 2" "b < 2" "bytes_Compare (offNodes st ! a) (offNodes st ! b) < 0"
  proof
    assume "bytes_Compare x y < 0"
    then show thesis
      using that [of 0 1] by (simp add: x_def y_def)
  next
    assume "bytes_Compare y x < 0"
    then show thesis
      using that [of 1 0] by (simp add: x_def y_def)
  qed
  define tail where "tail = concat (replicate 20 [a, b])"
  from A [of tail] obtain st1 mux1 where
    n: "MockNetwork_nodes_on 0 10 st mux (replicate 10 0 @ tail) = Returned (st1, mux1, tail)"
    and m: "map ID (onNodes st1) = take 10 (offNodes st)"
    and s: "\<not> stopped mux1"
    by blast
  from m assms(2) have len: "length (onNodes st1) = 10"
    by (metis length_map length_take min.absorb2)
  have idn: "ID (onNodes st1 ! j) = offNodes st ! j" if "j < 2" for j
  proof -
    from that len have "ID (onNodes st1 ! j) = map ID (onNodes st1) ! j"
      by simp
    also have "\<dots> = offNodes st ! j"
      using m that by simp
    finally show ?thesis .
  qed
  have "a mod 10 = a" "b mod 10 = b"
    using ab by simp_all
  with ab idn len have good:
    "bytes_Compare (ID (onNodes st1 ! (a mod length (onNodes st1))))
                    (ID (onNodes st1 ! (b mod length (onNodes st1)))) < 0"
    by simp
  from conns_on_ordered_pairs [OF _ good s, of 0 20 "[]"] len obtain st3 mux3 where
    c: "MockNetwork_conns_on 0 20 st1 mux1 tail = Returned (st3, mux3, [])"
    by (auto simp: tail_def)
  have "MockNetwork_tick 0 st mux (replicate 10 0 @ tail) = Returned (st3, mux3, [])"
    using n c by (simp add: MockNetwork_tick_def deltas_0 nodes_off_stop conns_off_stop)
  then show ?thesis
    by blast
qed


subsection \<open>Tick 0 and the partition of the identities\<close>

lemma MockNetwork_one_tick:
  "MockNetwork ids eventer 1 rs = MockNetwork_tick 0 (fresh_pool ids) eventer rs"
  by (simp add: MockNetwork_def One_nat_def split: outcome.splits)

lemma example_tick0_returns:
  "(case MockNetwork example_ids example_eventer 1 example_draws_tick0 of
      Returned x \<Rightarrow> True | NeedsDraw x \<Rightarrow> False | Panicked p \<Rightarrow> False)"
  by code_simp

lemma example_tick0_short:
  "(case MockNetwork example_ids example_eventer 1 example_draws_short of
      Returned x \<Rightarrow> False | NeedsDraw x \<Rightarrow> True | Panicked p \<Rightarrow> False)"
  by code_simp

lemma example_two_ticks_return:
  "(case MockNetwork example_ids example_eventer 2 example_draws of
      Returned x \<Rightarrow> True | NeedsDraw x \<Rightarrow> False | Panicked p \<Rightarrow> False)"
  by code_simp

lemma length_example_ids: "length example_ids = 100"
  by (simp add: example_ids_def)

lemma distinct_example_ids: "distinct example_ids"
  by code_simp

text \<open>
  Claim C8: started on a fresh pool of 100 off nodes, with no on nodes and no
  connections, and a running multiplexer, a completed tick 0 has posted exactly 10
  \<^verbatim>\<open>Node\<close>/\<^verbatim>\<open>On\<close> entries followed by exactly 20 \<^verbatim>\<open>Conn\<close>/\<^verbatim>\<open>On\<close> entries and nothing
  else, and in each posted connection the caller sorts strictly before the callee under
  \<^verbatim>\<open>bytes.Compare\<close>: a pair drawn in the wrong order or twice the same node is drawn
  again and not posted. A tick 0 that has not completed, waiting for its next draw, has
  posted fewer than 30 entries of the same shape, the first ten positions
  \<^verbatim>\<open>Node\<close>/\<^verbatim>\<open>On\<close> and the rest ordered \<^verbatim>\<open>Conn\<close>/\<^verbatim>\<open>On\<close>. Tick 0 never panics, and when
  the identities are distinct there are draws on which it completes.
\<close>

theorem MockNetwork_tick0_posts:
  assumes "length ids = 100" and "\<not> stopped eventer"
  shows "(\<forall>rs st' mux' rs'. MockNetwork ids eventer 1 rs = Returned (st', mux', rs') \<longrightarrow>
            (\<exists>ps. posted mux' = posted eventer @ ps
               \<and> length ps = 30
               \<and> list_all is_node_on (take 10 ps)
               \<and> list_all is_ordered_conn_on (drop 10 ps)))
     \<and> (\<forall>rs st' mux' rs'. MockNetwork ids eventer 1 rs = NeedsDraw (st', mux', rs') \<longrightarrow>
            (\<exists>ps. posted mux' = posted eventer @ ps
               \<and> length ps < 30
               \<and> list_all is_node_on (take 10 ps)
               \<and> list_all is_ordered_conn_on (drop 10 ps)))
     \<and> (\<forall>rs p. MockNetwork ids eventer 1 rs \<noteq> Panicked p)
     \<and> (distinct ids \<longrightarrow> (\<exists>rs st' mux'. MockNetwork ids eventer 1 rs = Returned (st', mux', [])))"
proof (intro conjI allI impI)
  fix rs st' mux' rs'
  assume "MockNetwork ids eventer 1 rs = Returned (st', mux', rs')"
  then have R: "MockNetwork_tick 0 (fresh_pool ids) eventer rs = Returned (st', mux', rs')"
    by (simp only: MockNetwork_one_tick)
  from tick0_reaches [OF reachesI_Returned [OF R]] R assms(1)
  show "\<exists>ps. posted mux' = posted eventer @ ps \<and> length ps = 30
      \<and> list_all is_node_on (take 10 ps) \<and> list_all is_ordered_conn_on (drop 10 ps)"
    by (auto simp: fresh_pool_def)
next
  fix rs st' mux' rs'
  assume "MockNetwork ids eventer 1 rs = NeedsDraw (st', mux', rs')"
  then have R: "MockNetwork_tick 0 (fresh_pool ids) eventer rs = NeedsDraw (st', mux', rs')"
    by (simp only: MockNetwork_one_tick)
  from tick0_reaches [OF reachesI_NeedsDraw [OF R]] R assms(1)
  show "\<exists>ps. posted mux' = posted eventer @ ps \<and> length ps < 30
      \<and> list_all is_node_on (take 10 ps) \<and> list_all is_ordered_conn_on (drop 10 ps)"
    by (auto simp: fresh_pool_def)
next
  fix rs p
  show "MockNetwork ids eventer 1 rs \<noteq> Panicked p"
    using tick_no_panic [OF assms(2)] by (simp only: MockNetwork_one_tick) simp
next
  assume d: "distinct ids"
  with assms(1) have "ids ! 0 \<noteq> ids ! 1"
    by (simp add: nth_eq_iff_index_eq)
  with tick0_returns [of "fresh_pool ids" eventer] assms
  have "\<exists>rs st' mux'. MockNetwork_tick 0 (fresh_pool ids) eventer rs = Returned (st', mux', [])"
    by (simp add: fresh_pool_def)
  then show "\<exists>rs st' mux'. MockNetwork ids eventer 1 rs = Returned (st', mux', [])"
    unfolding MockNetwork_one_tick .
qed

theorem MockNetwork_tick0_posts_witness:
  "length example_ids = 100
   \<and> \<not> stopped example_eventer
   \<and> distinct example_ids
   \<and> (case MockNetwork example_ids example_eventer 1 example_draws_tick0 of
         Returned (st, mux, rs) \<Rightarrow>
           length (posted mux) = 30
           \<and> list_all is_node_on (take 10 (posted mux))
           \<and> list_all is_ordered_conn_on (drop 10 (posted mux))
       | NeedsDraw x \<Rightarrow> False
       | Panicked p \<Rightarrow> False)
   \<and> (case MockNetwork example_ids example_eventer 1 example_draws_short of
         Returned x \<Rightarrow> False
       | NeedsDraw (st, mux, rs) \<Rightarrow>
           length (posted mux) < 30
           \<and> list_all is_node_on (take 10 (posted mux))
           \<and> list_all is_ordered_conn_on (drop 10 (posted mux))
       | Panicked p \<Rightarrow> False)"
proof -
  have ns: "\<not> stopped example_eventer"
    by (simp add: example_eventer_def)
  note C = MockNetwork_tick0_posts [OF length_example_ids ns]
  from example_tick0_returns obtain st mux rs where
    R: "MockNetwork example_ids example_eventer 1 example_draws_tick0 = Returned (st, mux, rs)"
    by (auto split: outcome.splits)
  from C R obtain ps where
    "posted mux = posted example_eventer @ ps" "length ps = 30"
    "list_all is_node_on (take 10 ps)" "list_all is_ordered_conn_on (drop 10 ps)"
    by blast
  then have 1: "length (posted mux) = 30" "list_all is_node_on (take 10 (posted mux))"
    "list_all is_ordered_conn_on (drop 10 (posted mux))"
    by (simp_all add: example_eventer_def)
  from example_tick0_short obtain st2 mux2 rs2 where
    N: "MockNetwork example_ids example_eventer 1 example_draws_short = NeedsDraw (st2, mux2, rs2)"
    by (auto split: outcome.splits)
  from C N obtain ps2 where
    "posted mux2 = posted example_eventer @ ps2" "length ps2 < 30"
    "list_all is_node_on (take 10 ps2)" "list_all is_ordered_conn_on (drop 10 ps2)"
    by blast
  then have 2: "length (posted mux2) < 30" "list_all is_node_on (take 10 (posted mux2))"
    "list_all is_ordered_conn_on (drop 10 (posted mux2))"
    by (simp_all add: example_eventer_def)
  from R N 1 2 ns length_example_ids distinct_example_ids show ?thesis
    by simp
qed

text \<open>
  Claim C10: at the start of every tick, that is after any number of completed ticks,
  and also wherever a tick waits for its next draw, the generated identities are split
  between the on-set and the off-pool: counted with multiplicity the two together are the
  generated identities, so their sizes sum to the number generated (100), and when the
  generated identities are distinct the two are disjoint. Read in post order against the
  two pools, starting from the empty on-set and the full off-pool, every
  \<^verbatim>\<open>Node\<close>/\<^verbatim>\<open>On\<close> entry posted so far names a node that is in the off-pool at that
  point and moves it to the on-set, every \<^verbatim>\<open>Node\<close>/\<^verbatim>\<open>Off\<close> entry names a node that is
  in the on-set and moves it back, and the pools reached at the end are the driver's.
\<close>

theorem MockNetwork_partition:
  assumes "MockNetwork ids eventer k rs = Returned (st', mux', rs')
         \<or> MockNetwork ids eventer k rs = NeedsDraw (st', mux', rs')"
  shows "\<exists>ps. posted mux' = posted eventer @ ps
     \<and> replay_nodes ps ({#}, mset ids) = Some (mset (map ID (onNodes st')), mset (offNodes st'))
     \<and> mset (map ID (onNodes st')) + mset (offNodes st') = mset ids
     \<and> length (onNodes st') + length (offNodes st') = length ids
     \<and> (length ids = 100 \<longrightarrow> length (onNodes st') + length (offNodes st') = 100)
     \<and> (distinct ids \<longrightarrow>
          distinct (map ID (onNodes st')) \<and> distinct (offNodes st')
          \<and> set (map ID (onNodes st')) \<inter> set (offNodes st') = {})"
proof -
  from assms have "reaches (MockNetwork_ticks k 0 (fresh_pool ids) eventer rs) (st', mux', rs')"
    by (simp add: MockNetwork_def reaches_def)
  from ticks_advances [OF this] obtain ps where
    p: "posted mux' = posted eventer @ ps"
    and r: "replay_nodes ps (pools (fresh_pool ids)) = Some (pools st')"
    unfolding advances_def by blast
  from r have r': "replay_nodes ps ({#}, mset ids) = Some (mset (map ID (onNodes st')), mset (offNodes st'))"
    by (simp add: pools_def fresh_pool_def)
  from replay_nodes_sum [OF r'] have m: "mset (map ID (onNodes st')) + mset (offNodes st') = mset ids"
    by simp
  then have "mset (map ID (onNodes st') @ offNodes st') = mset ids"
    by simp
  then have len: "length (map ID (onNodes st') @ offNodes st') = length ids"
    and dist: "distinct (map ID (onNodes st') @ offNodes st') = distinct ids"
    by (metis size_mset, metis mset_eq_imp_distinct_iff)
  from len have l: "length (onNodes st') + length (offNodes st') = length ids"
    by simp
  from dist have "distinct (map ID (onNodes st')) \<and> distinct (offNodes st')
      \<and> set (map ID (onNodes st')) \<inter> set (offNodes st') = {}" if "distinct ids"
    using that by simp
  with p r' m l show ?thesis
    by auto
qed

theorem MockNetwork_partition_witness:
  "length example_ids = 100
   \<and> distinct example_ids
   \<and> (case MockNetwork example_ids example_eventer 2 example_draws of
         Returned (st, mux, rs) \<Rightarrow>
           replay_nodes (posted mux) ({#}, mset example_ids)
             = Some (mset (map ID (onNodes st)), mset (offNodes st))
           \<and> length (onNodes st) + length (offNodes st) = 100
           \<and> distinct (map ID (onNodes st)) \<and> distinct (offNodes st)
           \<and> set (map ID (onNodes st)) \<inter> set (offNodes st) = {}
       | NeedsDraw x \<Rightarrow> False
       | Panicked p \<Rightarrow> False)
   \<and> (case MockNetwork example_ids example_eventer 1 example_draws_short of
         Returned x \<Rightarrow> False
       | NeedsDraw (st, mux, rs) \<Rightarrow>
           length (onNodes st) + length (offNodes st) = 100
           \<and> set (map ID (onNodes st)) \<inter> set (offNodes st) = {}
       | Panicked p \<Rightarrow> False)"
proof -
  from example_tick0_short obtain st2 mux2 rs2 where
    N: "MockNetwork example_ids example_eventer 1 example_draws_short = NeedsDraw (st2, mux2, rs2)"
    by (auto split: outcome.splits)
  then have "MockNetwork example_ids example_eventer 1 example_draws_short = Returned (st2, mux2, rs2)
      \<or> MockNetwork example_ids example_eventer 1 example_draws_short = NeedsDraw (st2, mux2, rs2)"
    by simp
  from MockNetwork_partition [OF this] length_example_ids distinct_example_ids
  have 2: "length (onNodes st2) + length (offNodes st2) = 100"
    "set (map ID (onNodes st2)) \<inter> set (offNodes st2) = {}"
    by blast+
  from example_two_ticks_return obtain st mux rs where
    R: "MockNetwork example_ids example_eventer 2 example_draws = Returned (st, mux, rs)"
    by (auto split: outcome.splits)
  then have "MockNetwork example_ids example_eventer 2 example_draws = Returned (st, mux, rs)
      \<or> MockNetwork example_ids example_eventer 2 example_draws = NeedsDraw (st, mux, rs)"
    by simp
  from MockNetwork_partition [OF this] length_example_ids distinct_example_ids obtain ps where
    "posted mux = posted example_eventer @ ps"
    "replay_nodes ps ({#}, mset example_ids) = Some (mset (map ID (onNodes st)), mset (offNodes st))"
    "length (onNodes st) + length (offNodes st) = 100"
    "distinct (map ID (onNodes st))" "distinct (offNodes st)"
    "set (map ID (onNodes st)) \<inter> set (offNodes st) = {}"
    by blast
  then have "replay_nodes (posted mux) ({#}, mset example_ids)
      = Some (mset (map ID (onNodes st)), mset (offNodes st))"
    by (simp add: example_eventer_def)
  with R N 2 length_example_ids distinct_example_ids
    \<open>length (onNodes st) + length (offNodes st) = 100\<close>
    \<open>distinct (map ID (onNodes st))\<close> \<open>distinct (offNodes st)\<close>
    \<open>set (map ID (onNodes st)) \<inter> set (offNodes st) = {}\<close>
  show ?thesis
    by simp
qed


end
